theory Spec2Isabelle
  imports Main
begin

section \<open>Data model of \<open>DataTable.tsx\<close>\<close>

text \<open>
  The component keeps its data in React state cells and talks to one remote endpoint,
  \<open>GET /artworks?page=n\<close>. The embedding keeps the source's names. Numbers that come
  from JSON or from \<open>parseInt\<close> are modelled as unbounded integers: every value the code
  compares them with is an array length, far below \<open>2^53\<close>, so the rounding of doubles
  never changes the outcome of a comparison made by the code. An \<open>id\<close> is an integer, as
  the interface \<open>Artwork\<close> and the remote API have it, and \<open>===\<close> on ids is equality.
\<close>

record artwork =
  id_artwork :: int
  title :: string
  place_of_origin :: string
  artist_display :: string
  inscriptions :: "string option"
  date_start :: "int option"
  date_end :: "int option"

text \<open>The \<open>pagination\<close> object of a response body; \<open>total_count\<close> is its field \<open>total\<close>.\<close>

record pagination_info =
  total_count :: int
  current_page :: int
  total_pages :: int

text \<open>
  The body of a response (\<open>response.data\<close>). Both members may be missing: the code tests
  \<open>data.data\<close> and \<open>data.pagination\<close> for truthiness before it uses them.
\<close>

record payload =
  data :: "artwork list option"
  pagination :: "pagination_info option"

text \<open>
  What \<open>await axios.get(...)\<close> yields: the promise is rejected (the \<open>catch\<close> block
  runs), or it resolves with a response whose body may be absent.
\<close>

datatype fetch_outcome = Rejected | Resolved "payload option"

type_synonym fetcher = "int \<Rightarrow> fetch_outcome"

datatype log_level = ConsoleError | ConsoleWarn

type_synonym log_entry = "log_level \<times> string"

text \<open>
  Network activity as the code produces it: a request is issued, and the code after
  \<open>await\<close> runs only once that request has settled.
\<close>

datatype net_event = Requested int | Settled int

text \<open>\<open>await axios.get(`...?page=${p}`)\<close>: the request for page \<open>p\<close>, then its settlement.\<close>

definition awaited_get :: "int \<Rightarrow> net_event list" where
  "awaited_get p = [Requested p, Settled p]"

text \<open>A JavaScript string is a sequence of UTF-16 code units.\<close>

type_synonym js_string = "nat list"

definition ascii :: "string \<Rightarrow> js_string" where
  "ascii s = map of_char s"

text \<open>
  The state cells of \<open>DataTableComponent\<close>, the visibility of the overlay panel, and the
  two observable effect logs (console and network).
\<close>

record component =
  artworks :: "artwork list"
  selectedArtworks :: "artwork list"
  loading :: bool
  overlayLoading :: bool
  totalRecords :: int
  currentPage :: int
  inputValue :: js_string
  overlayVisible :: bool
  console :: "log_entry list"
  network :: "net_event list"

text \<open>The only member of \<open>DataTableStateEvent\<close> that the component reads.\<close>

record DataTableStateEvent =
  page :: "int option"

section \<open>\<open>parseInt(s, 10)\<close>\<close>

text \<open>
  ECMAScript \<open>parseInt\<close> with radix 10: leading white space and line terminators are
  skipped, one sign is read, and the longest prefix of decimal digits is converted.
  Anything after that prefix is ignored. \<open>None\<close> is \<open>NaN\<close>.
\<close>

definition isWhiteSpace :: "nat \<Rightarrow> bool" where
  "isWhiteSpace c =
     (c \<in> set [0x09, 0x0A, 0x0B, 0x0C, 0x0D, 0x20, 0xA0, 0x1680, 0x2028, 0x2029,
                0x202F, 0x205F, 0x3000, 0xFEFF]
      \<or> (0x2000 \<le> c \<and> c \<le> 0x200A))"

definition isDigit :: "nat \<Rightarrow> bool" where
  "isDigit c = (0x30 \<le> c \<and> c \<le> 0x39)"

definition digitsValue :: "nat list \<Rightarrow> int" where
  "digitsValue ds = foldl (\<lambda>acc c. 10 * acc + int (c - 0x30)) 0 ds"

definition parseInt10 :: "js_string \<Rightarrow> int option" where
  "parseInt10 inputString =
     (let S = dropWhile isWhiteSpace inputString;
          sign = (if S \<noteq> [] \<and> hd S = 0x2D then - 1 else 1);
          S' = (if S \<noteq> [] \<and> (hd S = 0x2B \<or> hd S = 0x2D) then tl S else S);
          Z = takeWhile isDigit S'
      in if Z = [] then None else Some (sign * digitsValue Z))"

section \<open>The paginated view driver\<close>

definition msg_fetch_error :: string where
  "msg_fetch_error = ''Error fetching artworks:''"

definition msg_no_data :: string where
  "msg_no_data = ''No data found for the current page.''"

definition msg_not_enough :: string where
  "msg_not_enough = ''Not enough items available to fulfill the request.''"

definition msg_invalid_input :: string where
  "msg_invalid_input = ''Invalid input. Please enter a positive number.''"

text \<open>
  \<open>fetchArtworks\<close>: \<open>setLoading(true)\<close>, the request, the three setters under the guard
  \<open>data && data.data\<close>, the \<open>catch\<close> block and the \<open>finally\<close> block. When the body
  has \<open>data\<close> but no \<open>pagination\<close>, \<open>setArtworks\<close> has already run when
  \<open>data.pagination.total\<close> throws; the \<open>catch\<close> block then logs the error.
\<close>

definition fetchArtworks :: "fetcher \<Rightarrow> int \<Rightarrow> component \<Rightarrow> component" where
  "fetchArtworks fetch p st =
     (let st1 = st\<lparr>loading := True, network := network st @ awaited_get p\<rparr>
      in case fetch p of
           Rejected \<Rightarrow>
             st1\<lparr>console := console st1 @ [(ConsoleError, msg_fetch_error)], loading := False\<rparr>
         | Resolved None \<Rightarrow> st1\<lparr>loading := False\<rparr>
         | Resolved (Some d) \<Rightarrow>
             (case data d of
                None \<Rightarrow> st1\<lparr>loading := False\<rparr>
              | Some rows \<Rightarrow>
                  (let st2 = st1\<lparr>artworks := rows\<rparr>
                   in case pagination d of
                        None \<Rightarrow>
                          st2\<lparr>console := console st2 @ [(ConsoleError, msg_fetch_error)],
                              loading := False\<rparr>
                      | Some pg \<Rightarrow>
                          st2\<lparr>totalRecords := total_count pg,
                              currentPage := current_page pg,
                              loading := False\<rparr>)))"

text \<open>\<open>onPageChange\<close>: \<open>(event.page ?? 0) + 1\<close>, then \<open>fetchArtworks\<close>.\<close>

definition onPageChange ::
  "fetcher \<Rightarrow> 'a DataTableStateEvent_scheme \<Rightarrow> component \<Rightarrow> component" where
  "onPageChange fetch event st =
     (let nextPage = (case page event of None \<Rightarrow> 0 | Some p \<Rightarrow> p) + 1
      in fetchArtworks fetch nextPage st)"

section \<open>The selection walk of \<open>handleSubmit\<close>\<close>

text \<open>The local variables of the walk and the effects it has produced so far.\<close>

record loop_state =
  selectedItems :: "artwork list"
  currentPageToFetch :: int
  logged :: "log_entry list"
  net :: "net_event list"

datatype control = Continue | Break

text \<open>\<open>xs.slice(0, e)\<close>: a negative end counts from the end of the array.\<close>

definition slice0 :: "int \<Rightarrow> 'a list \<Rightarrow> 'a list" where
  "slice0 e xs = (if e < 0 then take (nat (int (length xs) + e)) xs else take (nat e) xs)"

text \<open>
  \<open>artworksFromPage.filter(artwork => !selectedItems.some(selected => selected.id === artwork.id))\<close>
\<close>

definition uniqueItems :: "artwork list \<Rightarrow> artwork list \<Rightarrow> artwork list" where
  "uniqueItems selected artworksFromPage =
     filter (\<lambda>artwork. \<not> list_ex (\<lambda>sel. id_artwork sel = id_artwork artwork) selected)
       artworksFromPage"

text \<open>
  One pass through the body of the \<open>while\<close> loop, entered with the loop condition true.
  The result says whether the loop goes on to test its condition again or was left by
  \<open>break\<close>.
\<close>

definition loop_body :: "fetcher \<Rightarrow> int \<Rightarrow> loop_state \<Rightarrow> control \<times> loop_state" where
  "loop_body fetch numberOfItems s =
     (let p = currentPageToFetch s;
          s1 = s\<lparr>net := net s @ awaited_get p\<rparr>
      in case fetch p of
           Rejected \<Rightarrow> (Break, s1\<lparr>logged := logged s1 @ [(ConsoleError, msg_fetch_error)]\<rparr>)
         | Resolved None \<Rightarrow> (Break, s1\<lparr>logged := logged s1 @ [(ConsoleError, msg_no_data)]\<rparr>)
         | Resolved (Some d) \<Rightarrow>
             (case data d of
                None \<Rightarrow> (Break, s1\<lparr>logged := logged s1 @ [(ConsoleError, msg_no_data)]\<rparr>)
              | Some artworksFromPage \<Rightarrow>
                  (let remainingItemsToSelect = numberOfItems - int (length (selectedItems s));
                       s2 = s1\<lparr>selectedItems := selectedItems s @
                                 slice0 remainingItemsToSelect
                                   (uniqueItems (selectedItems s) artworksFromPage)\<rparr>
                   in if int (length artworksFromPage) < remainingItemsToSelect then
                        (case pagination d of
                           None \<Rightarrow>
                             (Break, s2\<lparr>logged := logged s2 @ [(ConsoleWarn, msg_not_enough)]\<rparr>)
                         | Some pg \<Rightarrow>
                             if current_page pg < total_pages pg
                             then (Continue, s2\<lparr>currentPageToFetch := p + 1\<rparr>)
                             else (Break, s2\<lparr>logged := logged s2 @ [(ConsoleWarn, msg_not_enough)]\<rparr>))
                      else (Break, s2))))"

text \<open>
  \<open>while (selectedItems.length < numberOfItems) { ... }\<close>. The loop need not end (a
  source may report ever more pages), so not returning is the value \<open>None\<close>.
\<close>

partial_function (option) walk_loop :: "fetcher \<Rightarrow> int \<Rightarrow> loop_state \<Rightarrow> loop_state option" where
  "walk_loop fetch numberOfItems s =
     (if int (length (selectedItems s)) < numberOfItems then
        (case loop_body fetch numberOfItems s of
           (Continue, s') \<Rightarrow> walk_loop fetch numberOfItems s'
         | (Break, s') \<Rightarrow> Some s')
      else Some s)"

declare walk_loop.simps [code]

text \<open>
  The same loop cut off after at most \<open>k\<close> passes: \<open>(Continue, s)\<close> when \<open>k\<close> passes
  have run and the loop is about to test its condition in \<open>s\<close>, \<open>(Break, s)\<close> when the
  loop has been left in \<open>s\<close>. It describes every moment of every run, also of a run that
  never ends.
\<close>

fun walk_prefix :: "nat \<Rightarrow> fetcher \<Rightarrow> int \<Rightarrow> loop_state \<Rightarrow> control \<times> loop_state" where
  "walk_prefix 0 fetch numberOfItems s = (Continue, s)"
| "walk_prefix (Suc k) fetch numberOfItems s =
     (if int (length (selectedItems s)) < numberOfItems then
        (case loop_body fetch numberOfItems s of
           (Continue, s') \<Rightarrow> walk_prefix k fetch numberOfItems s'
         | (Break, s') \<Rightarrow> (Break, s'))
      else (Break, s))"

text \<open>\<open>let selectedItems = []; let currentPageToFetch = 1;\<close>\<close>

definition walk_init :: loop_state where
  "walk_init = \<lparr>selectedItems = [], currentPageToFetch = 1, logged = [], net = []\<rparr>"

text \<open>
  \<open>handleSubmit\<close>: the validation of the input, the walk, and the three statements after
  the loop. The result is \<open>None\<close> exactly when the walk never returns.
\<close>

definition handleSubmit :: "fetcher \<Rightarrow> component \<Rightarrow> component option" where
  "handleSubmit fetch st =
     (case parseInt10 (inputValue st) of
        None \<Rightarrow> Some (st\<lparr>console := console st @ [(ConsoleError, msg_invalid_input)]\<rparr>)
      | Some numberOfItems \<Rightarrow>
          if numberOfItems \<le> 0
          then Some (st\<lparr>console := console st @ [(ConsoleError, msg_invalid_input)]\<rparr>)
          else
            (case walk_loop fetch numberOfItems walk_init of
               None \<Rightarrow> None
             | Some s \<Rightarrow>
                 Some (st\<lparr>overlayLoading := False,
                          selectedArtworks := selectedItems s,
                          overlayVisible := False,
                          console := console st @ logged s,
                          network := network st @ net s\<rparr>)))"

section \<open>Notions the claims are stated with\<close>

text \<open>
  First-seen order: scanning a list of records from the left, a record is kept exactly when
  no earlier record of the list (and no id of \<open>seen\<close>) has its id.
\<close>

fun first_seen_from :: "int list \<Rightarrow> artwork list \<Rightarrow> artwork list" where
  "first_seen_from seen [] = []"
| "first_seen_from seen (x # xs) =
     (if id_artwork x \<in> set seen then first_seen_from seen xs
      else x # first_seen_from (id_artwork x # seen) xs)"

text \<open>
  The records of a list that are the first with their id, in the order of the list.
\<close>

definition first_seen :: "artwork list \<Rightarrow> artwork list" where
  "first_seen xs = first_seen_from [] xs"

text \<open>
  What is still missing of the target \<open>n\<close> once the first \<open>j\<close> pages of \<open>pages\<close> have been
  taken in completely, that is, before page \<open>j + 1\<close> is fetched.
\<close>

definition remaining_before :: "int \<Rightarrow> artwork list list \<Rightarrow> nat \<Rightarrow> int" where
  "remaining_before n pages j = n - int (length (first_seen (concat (take j pages))))"

text \<open>
  The page numbers requested in a network trace, in the order of the requests.
\<close>

fun requested_pages :: "net_event list \<Rightarrow> int list" where
  "requested_pages [] = []"
| "requested_pages (Requested p # es) = p # requested_pages es"
| "requested_pages (Settled p # es) = requested_pages es"

text \<open>
  The rows that the fetch of page \<open>p\<close> delivers; none when the fetch fails.
\<close>

definition rows_of :: "fetcher \<Rightarrow> int \<Rightarrow> artwork list" where
  "rows_of fetch p =
     (case fetch p of
        Rejected \<Rightarrow> []
      | Resolved None \<Rightarrow> []
      | Resolved (Some d) \<Rightarrow> (case data d of None \<Rightarrow> [] | Some rows \<Rightarrow> rows))"

text \<open>
  The rows of all pages requested in a network trace, page after page.
\<close>

definition fetched_rows :: "fetcher \<Rightarrow> net_event list \<Rightarrow> artwork list" where
  "fetched_rows fetch es = concat (map (rows_of fetch) (requested_pages es))"

section \<open>Sample data for concrete runs\<close>

definition sample_artwork :: "int \<Rightarrow> string \<Rightarrow> artwork" where
  "sample_artwork i t =
     \<lparr>id_artwork = i, title = t, place_of_origin = [], artist_display = [],
      inscriptions = None, date_start = None, date_end = None\<rparr>"

definition sample_page :: "artwork list \<Rightarrow> int \<Rightarrow> int \<Rightarrow> fetch_outcome" where
  "sample_page rows c t =
     Resolved (Some \<lparr>data = Some rows,
                     pagination = Some \<lparr>total_count = 100, current_page = c, total_pages = t\<rparr>\<rparr>)"

definition sample_component :: "js_string \<Rightarrow> component" where
  "sample_component v =
     \<lparr>artworks = [], selectedArtworks = [], loading = False, overlayLoading = False,
      totalRecords = 0, currentPage = 1, inputValue = v, overlayVisible = True,
      console = [], network = []\<rparr>"

definition twelve_a :: "artwork list" where
  "twelve_a = map (\<lambda>i. sample_artwork i ''a'') [1, 2, 3, 4, 5, 6, 7, 8, 9, 10, 11, 12]"

definition twelve_b :: "artwork list" where
  "twelve_b = map (\<lambda>i. sample_artwork i ''b'') [13, 14, 15, 16, 17, 18, 19, 20, 21, 22, 23, 24]"

definition scenario_disjoint :: fetcher where
  "scenario_disjoint p =
     (if p = 1 then sample_page twelve_a 1 2
      else if p = 2 then sample_page twelve_b 2 2
      else Rejected)"

definition scenario_overlap :: fetcher where
  "scenario_overlap p =
     (if p = 1 then sample_page [sample_artwork 1 ''a'', sample_artwork 2 ''a''] 1 3
      else if p = 2 then sample_page [sample_artwork 1 ''a''] 2 3
      else if p = 3 then sample_page [sample_artwork 3 ''a''] 3 3
      else Rejected)"

definition scenario_dup_page :: fetcher where
  "scenario_dup_page p =
     (if p = 1 then sample_page [sample_artwork 1 ''a'', sample_artwork 1 ''a''] 1 1
      else Rejected)"

definition scenario_dedup :: fetcher where
  "scenario_dedup p =
     (if p = 1 then sample_page [sample_artwork 1 ''first'', sample_artwork 2 ''first''] 1 3
      else if p = 2 then sample_page [sample_artwork 2 ''later'', sample_artwork 3 ''later''] 2 3
      else if p = 3 then sample_page [sample_artwork 4 ''twice'', sample_artwork 4 ''twice''] 3 3
      else Rejected)"

definition scenario_fail :: fetcher where
  "scenario_fail p =
     (if p = 1 then sample_page [sample_artwork 1 ''a'', sample_artwork 2 ''a''] 1 3
      else Rejected)"

definition scenario_no_data :: fetcher where
  "scenario_no_data p = Resolved (Some \<lparr>data = None, pagination = None\<rparr>)"

definition shared_first :: "artwork list" where
  "shared_first = [sample_artwork 1 ''a'', sample_artwork 2 ''a'', sample_artwork 3 ''a'']"

definition shared_second :: "artwork list" where
  "shared_second = [sample_artwork 3 ''b'', sample_artwork 4 ''b'', sample_artwork 5 ''b'',
                    sample_artwork 6 ''b'']"

definition scenario_shared :: fetcher where
  "scenario_shared p =
     (if p = 1 then sample_page shared_first 1 2
      else if p = 2 then sample_page shared_second 2 2
      else Rejected)"

definition ever_more :: fetcher where
  "ever_more p =
     Resolved (Some \<lparr>data = Some [],
                     pagination = Some \<lparr>total_count = 0, current_page = p,
                                         total_pages = p + 1\<rparr>\<rparr>)"

definition scenario_no_pagination :: fetcher where
  "scenario_no_pagination p = Resolved (Some \<lparr>data = Some twelve_b, pagination = None\<rparr>)"

lemmas scenario_defs = sample_artwork_def sample_page_def sample_component_def twelve_a_def
  twelve_b_def scenario_disjoint_def scenario_overlap_def scenario_dup_page_def
  scenario_dedup_def scenario_fail_def

lemmas walk_defs = loop_body_def walk_init_def awaited_get_def slice0_def uniqueItems_def
  msg_fetch_error_def msg_no_data_def msg_not_enough_def


section \<open>The loop and its prefixes\<close>

lemma walk_prefix_Break:
  "walk_prefix k fetch n s = (Break, s') \<Longrightarrow> walk_loop fetch n s = Some s'"
proof (induction k arbitrary: s)
  case 0
  then show ?case by simp
next
  case (Suc k)
  show ?case
  proof (cases "int (length (selectedItems s)) < n")
    case False
    with Suc.prems show ?thesis by (subst walk_loop.simps) simp
  next
    case True
    obtain c s1 where b: "loop_body fetch n s = (c, s1)" by (cases "loop_body fetch n s")
    show ?thesis
    proof (cases c)
      case Continue
      with Suc.prems True b have "walk_prefix k fetch n s1 = (Break, s')" by simp
      then have "walk_loop fetch n s1 = Some s'" by (rule Suc.IH)
      with True b Continue show ?thesis by (subst walk_loop.simps) simp
    next
      case Break
      with Suc.prems True b show ?thesis by (subst walk_loop.simps) simp
    qed
  qed
qed

lemma walk_prefix_Continue:
  "walk_prefix k fetch n s = (Continue, s') \<Longrightarrow> walk_loop fetch n s = walk_loop fetch n s'"
proof (induction k arbitrary: s)
  case 0
  then show ?case by simp
next
  case (Suc k)
  show ?case
  proof (cases "int (length (selectedItems s)) < n")
    case False
    with Suc.prems show ?thesis by simp
  next
    case True
    obtain c s1 where b: "loop_body fetch n s = (c, s1)" by (cases "loop_body fetch n s")
    show ?thesis
    proof (cases c)
      case Continue
      with Suc.prems True b have "walk_prefix k fetch n s1 = (Continue, s')" by simp
      then have "walk_loop fetch n s1 = walk_loop fetch n s'" by (rule Suc.IH)
      with True b Continue show ?thesis by (subst walk_loop.simps) simp
    next
      case Break
      with Suc.prems True b show ?thesis by simp
    qed
  qed
qed


lemma walk_loop_Some_prefix:
  assumes "walk_loop fetch n s = Some s'"
  shows "\<exists>k. walk_prefix k fetch n s = (Break, s')"
  using assms
proof (induction fetch n s s' rule: walk_loop.raw_induct[rotated 1, consumes 1])
  case (1 walk fetch n s s')
  show ?case
  proof (cases "int (length (selectedItems s)) < n")
    case False
    with 1(2) have "walk_prefix (Suc 0) fetch n s = (Break, s')" by simp
    then show ?thesis by blast
  next
    case True
    obtain c s1 where b: "loop_body fetch n s = (c, s1)" by (cases "loop_body fetch n s")
    show ?thesis
    proof (cases c)
      case Continue
      with 1(2) True b have "walk fetch n s1 = Some s'" by simp
      then obtain k where "walk_prefix k fetch n s1 = (Break, s')" using 1(1) by blast
      with True b Continue have "walk_prefix (Suc k) fetch n s = (Break, s')" by simp
      then show ?thesis by blast
    next
      case Break
      with 1(2) True b have "walk_prefix (Suc 0) fetch n s = (Break, s')" by simp
      then show ?thesis by blast
    qed
  qed
qed

lemma loop_body_net:
  "net (snd (loop_body fetch n s)) = net s @ awaited_get (currentPageToFetch s)"
  by (simp add: loop_body_def Let_def split: fetch_outcome.splits option.splits)

lemma loop_body_cursor:
  "currentPageToFetch (snd (loop_body fetch n s)) =
     (if fst (loop_body fetch n s) = Continue then currentPageToFetch s + 1
      else currentPageToFetch s)"
  by (simp add: loop_body_def Let_def split: fetch_outcome.splits option.splits)

lemma loop_body_selected:
  "\<exists>ys. selectedItems (snd (loop_body fetch n s)) = selectedItems s @ ys"
  by (simp add: loop_body_def Let_def split: fetch_outcome.splits option.splits)

lemma length_uniqueItems: "length (uniqueItems sel xs) \<le> length xs"
  by (simp add: uniqueItems_def)

lemma slice0_all: "int (length xs) \<le> e \<Longrightarrow> slice0 e xs = xs"
  by (simp add: slice0_def)

lemma loop_body_Continue_short:
  assumes "fst (loop_body fetch n s) = Continue"
  shows "int (length (selectedItems (snd (loop_body fetch n s)))) < n"
proof -
  from assms obtain d rows where d: "fetch (currentPageToFetch s) = Resolved (Some d)"
      "data d = Some rows" "int (length rows) < n - int (length (selectedItems s))"
    by (auto simp: loop_body_def Let_def split: fetch_outcome.splits option.splits if_splits)
  have "length (uniqueItems (selectedItems s) rows) \<le> length rows" by (rule length_uniqueItems)
  with d(3) have u: "int (length (uniqueItems (selectedItems s) rows)) \<le> n - int (length (selectedItems s))"
    by linarith
  then have "slice0 (n - int (length (selectedItems s))) (uniqueItems (selectedItems s) rows)
      = uniqueItems (selectedItems s) rows" by (rule slice0_all)
  moreover have "selectedItems (snd (loop_body fetch n s)) = selectedItems s @
      slice0 (n - int (length (selectedItems s))) (uniqueItems (selectedItems s) rows)"
    using d by (simp add: loop_body_def Let_def split: option.splits)
  ultimately show ?thesis using d(3) \<open>length (uniqueItems (selectedItems s) rows) \<le> length rows\<close>
    by simp
qed

lemma uniqueItems_fresh:
  "a \<in> set (uniqueItems sel rows) \<Longrightarrow> b \<in> set sel \<Longrightarrow> id_artwork b \<noteq> id_artwork a"
  by (auto simp: uniqueItems_def list_ex_iff)

lemma slice0_take: "\<exists>m. slice0 e xs = take m xs"
  by (auto simp: slice0_def)

lemma distinct_append_slice_unique:
  assumes "distinct (map id_artwork sel)" and "distinct (map id_artwork rows)"
  shows "distinct (map id_artwork (sel @ slice0 e (uniqueItems sel rows)))"
proof -
  obtain m where m: "slice0 e (uniqueItems sel rows) = take m (uniqueItems sel rows)"
    using slice0_take by blast
  have u: "distinct (map id_artwork (uniqueItems sel rows))"
    using assms(2) by (simp add: uniqueItems_def distinct_map_filter)
  have "distinct (take m (map id_artwork (uniqueItems sel rows)))"
    using u by (rule distinct_take)
  then have d: "distinct (map id_artwork (take m (uniqueItems sel rows)))"
    by (simp add: take_map)
  have "id_artwork b \<noteq> id_artwork a"
    if "a \<in> set (take m (uniqueItems sel rows))" and "b \<in> set sel" for a b
  proof -
    from that(1) have "a \<in> set (uniqueItems sel rows)" by (rule in_set_takeD)
    then show ?thesis using that(2) by (rule uniqueItems_fresh)
  qed
  then have "set (map id_artwork sel) \<inter> set (map id_artwork (take m (uniqueItems sel rows))) = {}"
    by fastforce
  with assms(1) d show ?thesis by (simp add: m)
qed

lemma loop_body_distinct:
  assumes pages: "\<And>d rows. fetch (currentPageToFetch s) = Resolved (Some d) \<Longrightarrow> data d = Some rows
                    \<Longrightarrow> distinct (map id_artwork rows)"
    and sel: "distinct (map id_artwork (selectedItems s))"
  shows "distinct (map id_artwork (selectedItems (snd (loop_body fetch n s))))"
proof (cases "fetch (currentPageToFetch s)")
  case Rejected
  with sel show ?thesis by (simp add: loop_body_def)
next
  case (Resolved body)
  show ?thesis
  proof (cases body)
    case None
    with Resolved sel show ?thesis by (simp add: loop_body_def)
  next
    case (Some d)
    show ?thesis
    proof (cases "data d")
      case None
      with Resolved Some sel show ?thesis by (simp add: loop_body_def)
    next
      case (Some rows)
      with Resolved \<open>body = Some d\<close> have "distinct (map id_artwork rows)" by (simp add: pages)
      with sel have "distinct (map id_artwork (selectedItems s @
          slice0 (n - int (length (selectedItems s))) (uniqueItems (selectedItems s) rows)))"
        by (rule distinct_append_slice_unique)
      with Resolved \<open>body = Some d\<close> Some show ?thesis
        by (simp add: loop_body_def Let_def split: option.splits)
    qed
  qed
qed

lemma walk_prefix_distinct:
  assumes pages: "\<And>p d rows. fetch p = Resolved (Some d) \<Longrightarrow> data d = Some rows
                    \<Longrightarrow> distinct (map id_artwork rows)"
    and sel: "distinct (map id_artwork (selectedItems s))"
  shows "distinct (map id_artwork (selectedItems (snd (walk_prefix k fetch n s))))"
  using sel
proof (induction k arbitrary: s)
  case 0
  then show ?case by simp
next
  case (Suc k)
  show ?case
  proof (cases "int (length (selectedItems s)) < n")
    case False
    with Suc.prems show ?thesis by simp
  next
    case True
    obtain c s1 where b: "loop_body fetch n s = (c, s1)" by (cases "loop_body fetch n s")
    have "distinct (map id_artwork (selectedItems (snd (loop_body fetch n s))))"
      using pages Suc.prems by (rule loop_body_distinct)
    with b have d1: "distinct (map id_artwork (selectedItems s1))" by simp
    show ?thesis
    proof (cases c)
      case Continue
      with True b Suc.IH[OF d1] show ?thesis by simp
    next
      case Break
      with True b d1 show ?thesis by simp
    qed
  qed
qed

lemma walk_prefix_net:
  "\<exists>m. currentPageToFetch s - 1 \<le> m
     \<and> net (snd (walk_prefix k fetch n s))
         = net s @ concat (map awaited_get [currentPageToFetch s..m])
     \<and> (fst (walk_prefix k fetch n s) = Continue \<longrightarrow>
           currentPageToFetch (snd (walk_prefix k fetch n s)) = m + 1)
     \<and> (fst (walk_prefix k fetch n s) = Break \<and> int (length (selectedItems s)) < n \<longrightarrow>
           currentPageToFetch s \<le> m)"
proof (induction k arbitrary: s)
  case 0
  have "net (snd (walk_prefix 0 fetch n s))
      = net s @ concat (map awaited_get [currentPageToFetch s..currentPageToFetch s - 1])"
    by simp
  then show ?case by fastforce
next
  case (Suc k)
  let ?c = "currentPageToFetch s"
  show ?case
  proof (cases "int (length (selectedItems s)) < n")
    case False
    then have "walk_prefix (Suc k) fetch n s = (Break, s)" by simp
    moreover have "[?c..?c - 1] = []" by simp
    ultimately show ?thesis using False by (intro exI[of _ "?c - 1"]) simp
  next
    case True
    obtain c s1 where b: "loop_body fetch n s = (c, s1)" by (cases "loop_body fetch n s")
    have n1: "net s1 = net s @ awaited_get ?c"
      using loop_body_net[of fetch n s] b by simp
    show ?thesis
    proof (cases c)
      case Break
      with True b have w: "walk_prefix (Suc k) fetch n s = (Break, s1)" by simp
      have "[?c..?c] = [?c]" by simp
      with w n1 show ?thesis by (intro exI[of _ "?c"]) simp
    next
      case Continue
      with True b have w: "walk_prefix (Suc k) fetch n s = walk_prefix k fetch n s1" by simp
      have c1: "currentPageToFetch s1 = ?c + 1"
        using loop_body_cursor[of fetch n s] b Continue by simp
      have l1: "int (length (selectedItems s1)) < n"
        using loop_body_Continue_short[of fetch n s] b Continue by simp
      from Suc.IH[of s1] c1 obtain m where m: "?c \<le> m"
        "net (snd (walk_prefix k fetch n s1)) = net s1 @ concat (map awaited_get [?c + 1..m])"
        "fst (walk_prefix k fetch n s1) = Continue \<longrightarrow>
           currentPageToFetch (snd (walk_prefix k fetch n s1)) = m + 1"
        by auto
      have "[?c..m] = ?c # [?c + 1..m]" using m(1) by (simp add: upto_rec1)
      then have "net s @ concat (map awaited_get [?c..m])
          = net s1 @ concat (map awaited_get [?c + 1..m])" using n1 by simp
      with m w show ?thesis by (intro exI[of _ m]) simp
    qed
  qed
qed

lemma handleSubmit_valid:
  assumes "parseInt10 (inputValue st) = Some n" and "0 < n"
    and "walk_loop fetch n walk_init = Some s"
  shows "handleSubmit fetch st =
           Some (st\<lparr>overlayLoading := False, selectedArtworks := selectedItems s,
                    overlayVisible := False, console := console st @ logged s,
                    network := network st @ net s\<rparr>)"
  using assms by (simp add: handleSubmit_def)


lemma loop_body_Continue_more:
  assumes "fst (loop_body fetch n s) = Continue"
  shows "\<exists>d pg. fetch (currentPageToFetch s) = Resolved (Some d) \<and> pagination d = Some pg
            \<and> current_page pg < total_pages pg"
  using assms
  by (auto simp: loop_body_def Let_def split: fetch_outcome.splits option.splits if_splits)

lemma walk_prefix_terminates:
  assumes meta: "\<And>p d pg. fetch p = Resolved (Some d) \<Longrightarrow> pagination d = Some pg
                   \<Longrightarrow> current_page pg = p \<and> total_pages pg \<le> T"
  shows "\<exists>k. fst (walk_prefix k fetch n s) = Break"
proof (induction "nat (T - currentPageToFetch s)" arbitrary: s rule: less_induct)
  case less
  show ?case
  proof (cases "int (length (selectedItems s)) < n")
    case False
    then have "fst (walk_prefix (Suc 0) fetch n s) = Break" by simp
    then show ?thesis by blast
  next
    case True
    obtain c s1 where b: "loop_body fetch n s = (c, s1)" by (cases "loop_body fetch n s")
    show ?thesis
    proof (cases c)
      case Break
      with True b have "fst (walk_prefix (Suc 0) fetch n s) = Break" by simp
      then show ?thesis by blast
    next
      case Continue
      with b have "fst (loop_body fetch n s) = Continue" by simp
      then obtain d pg where d: "fetch (currentPageToFetch s) = Resolved (Some d)"
          "pagination d = Some pg" "current_page pg < total_pages pg"
        using loop_body_Continue_more by blast
      from meta[OF d(1) d(2)] d(3) have lt: "currentPageToFetch s < T" by simp
      have c1: "currentPageToFetch s1 = currentPageToFetch s + 1"
        using loop_body_cursor[of fetch n s] b Continue by simp
      with lt have "nat (T - currentPageToFetch s1) < nat (T - currentPageToFetch s)" by simp
      then obtain k where "fst (walk_prefix k fetch n s1) = Break" using less by blast
      with True b Continue have "fst (walk_prefix (Suc k) fetch n s) = Break" by simp
      then show ?thesis by blast
    qed
  qed
qed

lemma walk_loop_terminates:
  assumes meta: "\<And>p d pg. fetch p = Resolved (Some d) \<Longrightarrow> pagination d = Some pg
                   \<Longrightarrow> current_page pg = p \<and> total_pages pg \<le> T"
  shows "\<exists>s'. walk_loop fetch n s = Some s'"
proof -
  obtain k where "fst (walk_prefix k fetch n s) = Break"
    using walk_prefix_terminates[of fetch T n s] meta by blast
  then have "walk_prefix k fetch n s = (Break, snd (walk_prefix k fetch n s))"
    by (metis prod.collapse)
  then show ?thesis using walk_prefix_Break by blast
qed

lemma uniqueItems_all:
  assumes "\<And>a b. a \<in> set rows \<Longrightarrow> b \<in> set sel \<Longrightarrow> id_artwork b \<noteq> id_artwork a"
  shows "uniqueItems sel rows = rows"
  using assms by (auto simp: uniqueItems_def list_ex_iff intro!: filter_True)

lemma concat_split_nth:
  "j < length pages \<Longrightarrow> concat pages = concat (take j pages) @ pages ! j @ concat (drop (Suc j) pages)"
  by (metis concat.simps(2) concat_append id_take_nth_drop)

lemma uniqueItems_disjoint_pages:
  assumes "distinct (map id_artwork (concat pages))" and "j < length pages"
  shows "uniqueItems (concat (take j pages)) (pages ! j) = pages ! j"
proof (rule uniqueItems_all)
  fix a b assume a: "a \<in> set (pages ! j)" and b: "b \<in> set (concat (take j pages))"
  let ?A = "map id_artwork (concat (take j pages))"
  let ?B = "map id_artwork (pages ! j)"
  let ?C = "map id_artwork (concat (drop (Suc j) pages))"
  have "map id_artwork (concat pages) = ?A @ (?B @ ?C)"
    using concat_split_nth[OF assms(2)] by (metis map_append)
  with assms(1) have "distinct (?A @ (?B @ ?C))" by simp
  then have "set ?A \<inter> set (?B @ ?C) = {}" by (simp only: distinct_append)
  then have d: "set ?A \<inter> set ?B = {}" by (simp only: set_append Int_Un_distrib Un_empty)
  have ia: "id_artwork a \<in> set ?B" using a by simp
  have ib: "id_artwork b \<in> set ?A" using b by (simp only: set_map image_eqI)
  from d ia ib show "id_artwork b \<noteq> id_artwork a" by (metis disjoint_iff)
qed

lemma loop_body_data:
  assumes "fetch (currentPageToFetch s) = Resolved (Some d)" and "data d = Some rows"
  shows "selectedItems (snd (loop_body fetch n s)) =
           selectedItems s @ slice0 (n - int (length (selectedItems s)))
                               (uniqueItems (selectedItems s) rows)"
    and "fst (loop_body fetch n s) =
           (if int (length rows) < n - int (length (selectedItems s))
               \<and> (\<exists>pg. pagination d = Some pg \<and> current_page pg < total_pages pg)
            then Continue else Break)"
  using assms by (auto simp: loop_body_def Let_def split: option.splits)

lemma walk_loop_step:
  assumes "int (length (selectedItems s)) < n"
  shows "fst (loop_body fetch n s) = Continue \<Longrightarrow>
           walk_loop fetch n s = walk_loop fetch n (snd (loop_body fetch n s))"
    and "fst (loop_body fetch n s) = Break \<Longrightarrow>
           walk_loop fetch n s = Some (snd (loop_body fetch n s))"
  using assms by (subst walk_loop.simps, simp add: case_prod_beta)+

lemma walk_disjoint_pages:
  assumes ok: "\<forall>j<length pages. \<exists>d. fetch (int j + 1) = Resolved (Some d)
                 \<and> data d = Some (pages ! j)
                 \<and> (Suc j < length pages \<longrightarrow>
                      (\<exists>pg. pagination d = Some pg \<and> current_page pg < total_pages pg))"
    and dist: "distinct (map id_artwork (concat pages))"
    and enough: "n \<le> int (length (concat pages))"
  shows "currentPageToFetch s = int j + 1 \<Longrightarrow> selectedItems s = concat (take j pages)
         \<Longrightarrow> int (length (selectedItems s)) < n
         \<Longrightarrow> \<exists>s'. walk_loop fetch n s = Some s' \<and> selectedItems s' = take (nat n) (concat pages)"
proof (induction "length pages - j" arbitrary: s j rule: less_induct)
  case less
  let ?acc = "selectedItems s"
  let ?r = "n - int (length ?acc)"
  have j: "j < length pages"
  proof (rule ccontr)
    assume "\<not> j < length pages"
    then have "take j pages = pages" by simp
    with less.prems(2,3) enough show False by simp
  qed
  let ?rows = "pages ! j"
  from ok j obtain d where d: "fetch (int j + 1) = Resolved (Some d)" "data d = Some ?rows"
      "Suc j < length pages \<longrightarrow> (\<exists>pg. pagination d = Some pg \<and> current_page pg < total_pages pg)"
    by blast
  have f: "fetch (currentPageToFetch s) = Resolved (Some d)" using d(1) less.prems(1) by simp
  have u: "uniqueItems ?acc ?rows = ?rows"
    using uniqueItems_disjoint_pages[OF dist j] less.prems(2) by simp
  have sel: "selectedItems (snd (loop_body fetch n s)) = ?acc @ slice0 ?r ?rows"
    using loop_body_data(1)[where fetch=fetch and s=s, OF f d(2)] u by simp
  have rpos: "0 < ?r" using less.prems(3) by simp
  show ?case
  proof (cases "int (length ?rows) < ?r")
    case True
    then have "slice0 ?r ?rows = ?rows" by (simp add: slice0_all)
    with sel have sel1: "selectedItems (snd (loop_body fetch n s)) = concat (take (Suc j) pages)"
      using less.prems(2) j by (simp add: take_Suc_conv_app_nth)
    have len1: "int (length (selectedItems (snd (loop_body fetch n s)))) < n"
      using sel \<open>slice0 ?r ?rows = ?rows\<close> True by simp
    have sj: "Suc j < length pages"
    proof (rule ccontr)
      assume "\<not> Suc j < length pages"
      then have "take (Suc j) pages = pages" by simp
      with sel1 len1 enough show False by simp
    qed
    with d(3) have more: "\<exists>pg. pagination d = Some pg \<and> current_page pg < total_pages pg" by simp
    have c: "fst (loop_body fetch n s) = Continue"
      using loop_body_data(2)[where fetch=fetch and s=s, OF f d(2)] True more by simp
    have cur: "currentPageToFetch (snd (loop_body fetch n s)) = int (Suc j) + 1"
      using loop_body_cursor[of fetch n s] c less.prems(1) by simp
    have "length pages - Suc j < length pages - j" using j by simp
    from less.hyps[OF this cur sel1 len1]
    obtain s' where "walk_loop fetch n (snd (loop_body fetch n s)) = Some s'"
        "selectedItems s' = take (nat n) (concat pages)" by blast
    with walk_loop_step(1)[OF less.prems(3) c] show ?thesis by simp
  next
    case False
    then have b: "fst (loop_body fetch n s) = Break"
      using loop_body_data(2)[where fetch=fetch and s=s, OF f d(2)] by simp
    have "slice0 ?r ?rows = take (nat ?r) ?rows" using rpos by (simp add: slice0_def)
    with sel have sel1: "selectedItems (snd (loop_body fetch n s)) = ?acc @ take (nat ?r) ?rows"
      by simp
    have "concat pages = ?acc @ ?rows @ concat (drop (Suc j) pages)"
      using concat_split_nth[OF j] less.prems(2) by simp
    then have "take (nat n) (concat pages) = take (nat n) (?acc @ ?rows @ concat (drop (Suc j) pages))"
      by simp
    also have "\<dots> = ?acc @ take (nat n - length ?acc) (?rows @ concat (drop (Suc j) pages))"
      using less.prems(3) by simp
    also have "nat n - length ?acc = nat ?r" using less.prems(3) by linarith
    also have "take (nat ?r) (?rows @ concat (drop (Suc j) pages)) = take (nat ?r) ?rows"
      using False by simp
    finally have "take (nat n) (concat pages) = ?acc @ take (nat ?r) ?rows" .
    with sel1 walk_loop_step(2)[OF less.prems(3) b] show ?thesis by simp
  qed
qed

section \<open>Parsing, the view driver and concrete runs\<close>

lemma parseInt10_samples:
  "parseInt10 (ascii ''3'') = Some 3"
  "parseInt10 (ascii ''5'') = Some 5"
  "parseInt10 (ascii ''20'') = Some 20"
  "parseInt10 (ascii ''12abc'') = Some 12"
  "parseInt10 (ascii ''abc'') = None"
  "parseInt10 (ascii ''-4'') = Some (- 4)"
  by (simp_all add: parseInt10_def ascii_def isWhiteSpace_def isDigit_def digitsValue_def)

lemma run_disjoint:
  "walk_loop scenario_disjoint 20 walk_init =
     Some \<lparr>selectedItems = twelve_a @ take 8 twelve_b, currentPageToFetch = 2, logged = [],
           net = [Requested 1, Settled 1, Requested 2, Settled 2]\<rparr>"
proof -
  have "walk_prefix (Suc (Suc 0)) scenario_disjoint 20 walk_init =
      (Break, \<lparr>selectedItems = twelve_a @ take 8 twelve_b, currentPageToFetch = 2, logged = [],
           net = [Requested 1, Settled 1, Requested 2, Settled 2]\<rparr>)"
    by (simp add: walk_defs scenario_defs)
  then show ?thesis by (rule walk_prefix_Break)
qed

lemma run_fail_prefix:
  "walk_prefix (Suc 0) scenario_fail 5 walk_init =
     (Continue, \<lparr>selectedItems = [sample_artwork 1 ''a'', sample_artwork 2 ''a''],
                 currentPageToFetch = 2, logged = [], net = [Requested 1, Settled 1]\<rparr>)"
  by (simp add: walk_defs scenario_defs)

lemma parseInt10_None_iff:
  "parseInt10 inputString = None \<longleftrightarrow>
     (let S = dropWhile isWhiteSpace inputString;
          S' = (if S \<noteq> [] \<and> (hd S = 0x2B \<or> hd S = 0x2D) then tl S else S)
      in S' = [] \<or> \<not> isDigit (hd S'))"
  by (simp add: parseInt10_def Let_def takeWhile_eq_Nil_iff)

text \<open>
  A body with \<open>data\<close> but without \<open>pagination\<close>: the rows are replaced before
  \<open>data.pagination.total\<close> throws, so the view shows the new rows with the old total and
  the old page, and the error is logged.
\<close>

lemma fetchArtworks_data_without_pagination:
  assumes "fetch p = Resolved (Some d)" and "data d = Some rows" and "pagination d = None"
  shows "fetchArtworks fetch p st =
           st\<lparr>artworks := rows, loading := False,
              console := console st @ [(ConsoleError, msg_fetch_error)],
              network := network st @ awaited_get p\<rparr>"
  using assms by (simp add: fetchArtworks_def)

lemma fetchArtworks_network:
  "network (fetchArtworks fetch p st) = network st @ awaited_get p"
  by (simp add: fetchArtworks_def Let_def split: fetch_outcome.splits option.splits)

section \<open>First-seen order, divergence and single passes\<close>

lemma first_seen_from_cong:
  "set seen = set seen' \<Longrightarrow> first_seen_from seen xs = first_seen_from seen' xs"
proof (induction xs arbitrary: seen seen')
  case Nil
  then show ?case by simp
next
  case (Cons x xs)
  have "set (id_artwork x # seen) = set (id_artwork x # seen')" using Cons.prems by simp
  then have "first_seen_from (id_artwork x # seen) xs = first_seen_from (id_artwork x # seen') xs"
    by (rule Cons.IH)
  moreover have "first_seen_from seen xs = first_seen_from seen' xs"
    using Cons.prems by (rule Cons.IH)
  ultimately show ?case using Cons.prems by simp
qed

lemma first_seen_from_append:
  "first_seen_from seen (xs @ ys) =
     first_seen_from seen xs @ first_seen_from (map id_artwork xs @ seen) ys"
proof (induction xs arbitrary: seen)
  case Nil
  then show ?case by simp
next
  case (Cons x xs)
  show ?case
  proof (cases "id_artwork x \<in> set seen")
    case True
    then have "set (map id_artwork (x # xs) @ seen) = set (map id_artwork xs @ seen)" by auto
    then have "first_seen_from (map id_artwork (x # xs) @ seen) ys
        = first_seen_from (map id_artwork xs @ seen) ys"
      by (rule first_seen_from_cong)
    with True Cons.IH[of seen] show ?thesis by simp
  next
    case False
    have "set (map id_artwork (x # xs) @ seen) = set (map id_artwork xs @ id_artwork x # seen)"
      by auto
    then have "first_seen_from (map id_artwork (x # xs) @ seen) ys
        = first_seen_from (map id_artwork xs @ id_artwork x # seen) ys"
      by (rule first_seen_from_cong)
    with False Cons.IH[of "id_artwork x # seen"] show ?thesis by simp
  qed
qed

lemma ids_first_seen_from:
  "set (map id_artwork (first_seen_from seen xs)) = set (map id_artwork xs) - set seen"
proof (induction xs arbitrary: seen)
  case Nil
  then show ?case by simp
next
  case (Cons x xs)
  show ?case
  proof (cases "id_artwork x \<in> set seen")
    case True
    with Cons.IH[of seen] show ?thesis by auto
  next
    case False
    with Cons.IH[of "id_artwork x # seen"] show ?thesis by auto
  qed
qed

lemma distinct_first_seen_from: "distinct (map id_artwork (first_seen_from seen xs))"
proof (induction xs arbitrary: seen)
  case Nil
  then show ?case by simp
next
  case (Cons x xs)
  show ?case
  proof (cases "id_artwork x \<in> set seen")
    case True
    with Cons.IH[of seen] show ?thesis by simp
  next
    case False
    have "id_artwork x \<notin> set (map id_artwork (first_seen_from (id_artwork x # seen) xs))"
      by (simp only: ids_first_seen_from) simp
    with False Cons.IH[of "id_artwork x # seen"] show ?thesis by simp
  qed
qed

lemma first_seen_from_distinct_filter:
  "distinct (map id_artwork rows) \<Longrightarrow>
     first_seen_from seen rows = filter (\<lambda>a. id_artwork a \<notin> set seen) rows"
proof (induction rows arbitrary: seen)
  case Nil
  then show ?case by simp
next
  case (Cons x xs)
  from Cons.prems have d: "distinct (map id_artwork xs)"
    and nx: "id_artwork x \<notin> set (map id_artwork xs)" by simp_all
  show ?case
  proof (cases "id_artwork x \<in> set seen")
    case True
    with Cons.IH[OF d, of seen] show ?thesis by simp
  next
    case False
    have "filter (\<lambda>a. id_artwork a \<notin> set (id_artwork x # seen)) xs
        = filter (\<lambda>a. id_artwork a \<notin> set seen) xs"
    proof (rule filter_cong[OF refl])
      fix a assume "a \<in> set xs"
      then have "id_artwork a \<in> set (map id_artwork xs)" by simp
      with nx have "id_artwork a \<noteq> id_artwork x" by metis
      then show "(id_artwork a \<notin> set (id_artwork x # seen)) = (id_artwork a \<notin> set seen)"
        by simp
    qed
    with False Cons.IH[OF d, of "id_artwork x # seen"] show ?thesis by simp
  qed
qed

lemma uniqueItems_ids:
  "uniqueItems sel rows = filter (\<lambda>a. id_artwork a \<notin> set (map id_artwork sel)) rows"
proof -
  have "(\<not> list_ex (\<lambda>s. id_artwork s = id_artwork a) sel)
      = (id_artwork a \<notin> set (map id_artwork sel))" for a :: artwork
    by (induction sel) auto
  then show ?thesis by (simp add: uniqueItems_def)
qed

lemma uniqueItems_same_ids:
  "set (map id_artwork sel) = set (map id_artwork sel') \<Longrightarrow>
     uniqueItems sel rows = uniqueItems sel' rows"
  by (simp only: uniqueItems_ids)

lemma ids_first_seen: "set (map id_artwork (first_seen xs)) = set (map id_artwork xs)"
  by (simp only: first_seen_def ids_first_seen_from) simp

lemma distinct_first_seen: "distinct (map id_artwork (first_seen xs))"
  by (simp only: first_seen_def distinct_first_seen_from)

lemma first_seen_append_page:
  assumes "distinct (map id_artwork rows)"
  shows "first_seen (xs @ rows) = first_seen xs @ uniqueItems (first_seen xs) rows"
proof -
  have "first_seen (xs @ rows) = first_seen xs @ first_seen_from (map id_artwork xs @ []) rows"
    by (simp only: first_seen_def first_seen_from_append)
  also have "first_seen_from (map id_artwork xs @ []) rows
      = filter (\<lambda>a. id_artwork a \<notin> set (map id_artwork xs @ [])) rows"
    using assms by (rule first_seen_from_distinct_filter)
  also have "\<dots> = uniqueItems xs rows" by (simp only: uniqueItems_ids append_Nil2)
  also have "\<dots> = uniqueItems (first_seen xs) rows"
    by (rule uniqueItems_same_ids) (simp only: ids_first_seen)
  finally show ?thesis .
qed

lemma first_seen_append_prefix: "\<exists>zs. first_seen (xs @ ys) = first_seen xs @ zs"
  by (simp only: first_seen_def first_seen_from_append) blast

lemma first_seen_snoc:
  "first_seen (xs @ [x]) =
     (if id_artwork x \<in> set (map id_artwork xs) then first_seen xs else first_seen xs @ [x])"
  by (simp add: first_seen_def first_seen_from_append)

lemma first_seen_is_first:
  "x \<in> set (first_seen xs) \<Longrightarrow>
     \<exists>j<length xs. xs ! j = x \<and> (\<forall>i<j. id_artwork (xs ! i) \<noteq> id_artwork x)"
proof (induction xs rule: rev_induct)
  case Nil
  then show ?case by (simp add: first_seen_def)
next
  case (snoc y ys)
  show ?case
  proof (cases "x \<in> set (first_seen ys)")
    case True
    then obtain j where j: "j < length ys" "ys ! j = x"
        "\<forall>i<j. id_artwork (ys ! i) \<noteq> id_artwork x"
      using snoc.IH by blast
    have "(ys @ [y]) ! j = x" using j(1,2) by (simp add: nth_append)
    moreover have "\<forall>i<j. id_artwork ((ys @ [y]) ! i) \<noteq> id_artwork x"
      using j(1,3) by (simp add: nth_append)
    moreover have "j < length (ys @ [y])" using j(1) by simp
    ultimately show ?thesis by blast
  next
    case False
    with snoc.prems have new: "id_artwork y \<notin> set (map id_artwork ys)" and xy: "x = y"
      by (auto simp: first_seen_snoc split: if_splits)
    have "(ys @ [y]) ! length ys = x" using xy by simp
    moreover have "\<forall>i<length ys. id_artwork ((ys @ [y]) ! i) \<noteq> id_artwork x"
    proof (intro allI impI)
      fix i assume i: "i < length ys"
      then have "id_artwork (ys ! i) \<in> set (map id_artwork ys)" by simp
      with new xy have "id_artwork (ys ! i) \<noteq> id_artwork x" by metis
      with i show "id_artwork ((ys @ [y]) ! i) \<noteq> id_artwork x" by (simp add: nth_append)
    qed
    moreover have "length ys < length (ys @ [y])" by simp
    ultimately show ?thesis by blast
  qed
qed

lemma walk_first_seen_pages:
  assumes reach: "\<forall>j<length pages. 0 < remaining_before n pages j \<longrightarrow>
        (\<exists>d. fetch (int j + 1) = Resolved (Some d) \<and> data d = Some (pages ! j)
           \<and> (int (length (pages ! j)) < remaining_before n pages j \<longrightarrow>
                (\<exists>pg. pagination d = Some pg \<and> current_page pg < total_pages pg)))
        \<and> distinct (map id_artwork (pages ! j))
        \<and> (remaining_before n pages j \<le> int (length (pages ! j)) \<longrightarrow>
             remaining_before n pages j
               \<le> int (length (uniqueItems (concat (take j pages)) (pages ! j))))"
    and enough: "n \<le> int (length (first_seen (concat pages)))"
  shows "currentPageToFetch s = int j + 1 \<Longrightarrow> selectedItems s = first_seen (concat (take j pages))
         \<Longrightarrow> int (length (selectedItems s)) < n
         \<Longrightarrow> \<exists>s'. walk_loop fetch n s = Some s'
               \<and> selectedItems s' = take (nat n) (first_seen (concat pages))"
proof (induction "length pages - j" arbitrary: s j rule: less_induct)
  case less
  let ?acc = "selectedItems s"
  let ?r = "n - int (length ?acc)"
  let ?rows = "pages ! j"
  let ?U = "uniqueItems ?acc ?rows"
  have j: "j < length pages"
  proof (rule ccontr)
    assume "\<not> j < length pages"
    then have "take j pages = pages" by simp
    with less.prems(2,3) enough show False by simp
  qed
  have r: "remaining_before n pages j = ?r"
    using less.prems(2) by (simp add: remaining_before_def)
  have rpos: "0 < ?r" using less.prems(3) by simp
  from reach j r rpos obtain d where d: "fetch (int j + 1) = Resolved (Some d)"
      "data d = Some ?rows"
      "int (length ?rows) < ?r \<longrightarrow> (\<exists>pg. pagination d = Some pg \<and> current_page pg < total_pages pg)"
    and dist: "distinct (map id_artwork ?rows)"
    and suff: "?r \<le> int (length ?rows) \<longrightarrow>
        ?r \<le> int (length (uniqueItems (concat (take j pages)) ?rows))"
    by (metis (no_types, lifting))
  have f: "fetch (currentPageToFetch s) = Resolved (Some d)" using d(1) less.prems(1) by simp
  have u: "uniqueItems (concat (take j pages)) ?rows = ?U"
    by (rule uniqueItems_same_ids) (simp only: less.prems(2) ids_first_seen)
  have step: "first_seen (concat (take (Suc j) pages)) = ?acc @ ?U"
  proof -
    have "concat (take (Suc j) pages) = concat (take j pages) @ ?rows"
      using j by (simp add: take_Suc_conv_app_nth)
    then show ?thesis
      using first_seen_append_page[OF dist, of "concat (take j pages)"] less.prems(2) by simp
  qed
  have sel: "selectedItems (snd (loop_body fetch n s)) = ?acc @ slice0 ?r ?U"
    using loop_body_data(1)[where fetch=fetch and s=s, OF f d(2)] by simp
  show ?case
  proof (cases "int (length ?rows) < ?r")
    case True
    have lu: "int (length ?U) < ?r" using length_uniqueItems[of ?acc ?rows] True by linarith
    then have sl: "slice0 ?r ?U = ?U" by (simp add: slice0_all)
    with sel step have sel1:
      "selectedItems (snd (loop_body fetch n s)) = first_seen (concat (take (Suc j) pages))"
      by simp
    have len1: "int (length (selectedItems (snd (loop_body fetch n s)))) < n"
      using sel sl lu by simp
    have sj: "Suc j < length pages"
    proof (rule ccontr)
      assume "\<not> Suc j < length pages"
      then have "take (Suc j) pages = pages" by simp
      with sel1 len1 enough show False by simp
    qed
    from d(3) True have more: "\<exists>pg. pagination d = Some pg \<and> current_page pg < total_pages pg"
      by simp
    have c: "fst (loop_body fetch n s) = Continue"
      using loop_body_data(2)[where fetch=fetch and s=s, OF f d(2)] True more by simp
    have cur: "currentPageToFetch (snd (loop_body fetch n s)) = int (Suc j) + 1"
      using loop_body_cursor[of fetch n s] c less.prems(1) by simp
    have "length pages - Suc j < length pages - j" using j by simp
    from less.hyps[OF this cur sel1 len1]
    obtain s' where "walk_loop fetch n (snd (loop_body fetch n s)) = Some s'"
        "selectedItems s' = take (nat n) (first_seen (concat pages))" by blast
    with walk_loop_step(1)[OF less.prems(3) c] show ?thesis by simp
  next
    case False
    then have b: "fst (loop_body fetch n s) = Break"
      using loop_body_data(2)[where fetch=fetch and s=s, OF f d(2)] by simp
    from False suff u have lu: "?r \<le> int (length ?U)" by simp
    have "slice0 ?r ?U = take (nat ?r) ?U" using rpos by (simp add: slice0_def)
    with sel have sel1: "selectedItems (snd (loop_body fetch n s)) = ?acc @ take (nat ?r) ?U"
      by simp
    have "concat pages = concat (take (Suc j) pages) @ concat (drop (Suc j) pages)"
      by (metis append_take_drop_id concat_append)
    then obtain zs where "first_seen (concat pages) = first_seen (concat (take (Suc j) pages)) @ zs"
      using first_seen_append_prefix by metis
    with step have "first_seen (concat pages) = ?acc @ ?U @ zs" by simp
    then have "take (nat n) (first_seen (concat pages)) = take (nat n) (?acc @ ?U @ zs)"
      by simp
    also have "\<dots> = ?acc @ take (nat n - length ?acc) (?U @ zs)"
      using less.prems(3) by simp
    also have "nat n - length ?acc = nat ?r" using less.prems(3) by linarith
    also have "take (nat ?r) (?U @ zs) = take (nat ?r) ?U" using lu by simp
    finally have "take (nat n) (first_seen (concat pages)) = ?acc @ take (nat ?r) ?U" .
    with sel1 walk_loop_step(2)[OF less.prems(3) b] show ?thesis by simp
  qed
qed

lemmas first_seen_eval = first_seen_def remaining_before_def uniqueItems_def sample_artwork_def
  shared_first_def shared_second_def

lemma requested_pages_append:
  "requested_pages (xs @ ys) = requested_pages xs @ requested_pages ys"
  by (induction xs rule: requested_pages.induct) simp_all

lemma requested_pages_awaited_get: "requested_pages (awaited_get p) = [p]"
  by (simp add: awaited_get_def)

lemma requested_pages_trace: "requested_pages (concat (map awaited_get ps)) = ps"
  by (induction ps) (simp_all add: requested_pages_append requested_pages_awaited_get)

lemma fetched_rows_loop_body:
  "fetched_rows fetch (net (snd (loop_body fetch n s)))
     = fetched_rows fetch (net s) @ rows_of fetch (currentPageToFetch s)"
  by (simp add: fetched_rows_def loop_body_net requested_pages_append requested_pages_awaited_get)

lemma loop_body_first_seen:
  assumes inv: "selectedItems s = first_seen (fetched_rows fetch (net s))"
    and dist: "distinct (map id_artwork (rows_of fetch (currentPageToFetch s)))"
  shows "(fst (loop_body fetch n s) = Continue \<longrightarrow>
           selectedItems (snd (loop_body fetch n s))
             = first_seen (fetched_rows fetch (net (snd (loop_body fetch n s)))))
       \<and> (\<exists>zs. first_seen (fetched_rows fetch (net (snd (loop_body fetch n s))))
                 = selectedItems (snd (loop_body fetch n s)) @ zs)"
proof -
  let ?c = "currentPageToFetch s"
  let ?acc = "selectedItems s"
  let ?b = "loop_body fetch n s"
  let ?U = "uniqueItems ?acc (rows_of fetch ?c)"
  have fs: "first_seen (fetched_rows fetch (net (snd ?b))) = ?acc @ ?U"
    using first_seen_append_page[OF dist, of "fetched_rows fetch (net s)"] inv
    by (simp add: fetched_rows_loop_body)
  show ?thesis
  proof (cases "\<exists>d rows. fetch ?c = Resolved (Some d) \<and> data d = Some rows")
    case False
    then have "rows_of fetch ?c = []"
      by (auto simp: rows_of_def split: fetch_outcome.splits option.splits)
    then have u: "?U = []" by (simp add: uniqueItems_def)
    from False have "fst ?b = Break" and "selectedItems (snd ?b) = ?acc"
      by (auto simp: loop_body_def Let_def split: fetch_outcome.splits option.splits)
    with fs u show ?thesis by simp
  next
    case True
    then obtain d rows where d: "fetch ?c = Resolved (Some d)" "data d = Some rows" by blast
    then have ro: "rows_of fetch ?c = rows" by (simp add: rows_of_def)
    let ?r = "n - int (length ?acc)"
    have sel: "selectedItems (snd ?b) = ?acc @ slice0 ?r ?U"
      using loop_body_data(1)[where fetch=fetch and s=s, OF d] ro by simp
    obtain m where m: "slice0 ?r ?U = take m ?U" using slice0_take by blast
    have pre: "\<exists>zs. first_seen (fetched_rows fetch (net (snd ?b))) = selectedItems (snd ?b) @ zs"
    proof -
      have "?acc @ ?U = (?acc @ take m ?U) @ drop m ?U" by simp
      with fs sel m show ?thesis by metis
    qed
    have "selectedItems (snd ?b) = first_seen (fetched_rows fetch (net (snd ?b)))"
      if "fst ?b = Continue"
    proof -
      from that have "int (length rows) < ?r"
        using loop_body_data(2)[where fetch=fetch and s=s, OF d] by (simp split: if_splits)
      with length_uniqueItems[of ?acc rows] ro have "int (length ?U) \<le> ?r" by simp
      then have "slice0 ?r ?U = ?U" by (rule slice0_all)
      with sel fs show ?thesis by simp
    qed
    with pre show ?thesis by blast
  qed
qed

lemma walk_prefix_net_grows:
  "\<exists>es. net (snd (walk_prefix k fetch n s)) = net s @ es"
  using walk_prefix_net[of s k fetch n] by blast

lemma walk_prefix_first_seen:
  assumes "selectedItems s = first_seen (fetched_rows fetch (net s))"
    and "\<forall>p\<in>set (requested_pages (net (snd (walk_prefix k fetch n s)))).
           distinct (map id_artwork (rows_of fetch p))"
  shows "(fst (walk_prefix k fetch n s) = Continue \<longrightarrow>
           selectedItems (snd (walk_prefix k fetch n s))
             = first_seen (fetched_rows fetch (net (snd (walk_prefix k fetch n s)))))
       \<and> (\<exists>zs. first_seen (fetched_rows fetch (net (snd (walk_prefix k fetch n s))))
                 = selectedItems (snd (walk_prefix k fetch n s)) @ zs)"
  using assms
proof (induction k arbitrary: s)
  case 0
  then show ?case by simp
next
  case (Suc k)
  show ?case
  proof (cases "int (length (selectedItems s)) < n")
    case False
    with Suc.prems(1) show ?thesis by simp
  next
    case True
    obtain c s1 where b: "loop_body fetch n s = (c, s1)" by (cases "loop_body fetch n s")
    have n1: "net s1 = net s @ awaited_get (currentPageToFetch s)"
      using loop_body_net[of fetch n s] b by simp
    obtain es where es: "net (snd (walk_prefix (Suc k) fetch n s)) = net s1 @ es"
    proof (cases c)
      case Continue
      with True b have "walk_prefix (Suc k) fetch n s = walk_prefix k fetch n s1" by simp
      with walk_prefix_net_grows[of k fetch n s1] that show ?thesis by auto
    next
      case Break
      with True b have "walk_prefix (Suc k) fetch n s = (Break, s1)" by simp
      with that[of "[]"] show ?thesis by simp
    qed
    have "currentPageToFetch s \<in> set (requested_pages (net (snd (walk_prefix (Suc k) fetch n s))))"
      unfolding es n1 by (simp add: requested_pages_append requested_pages_awaited_get)
    with Suc.prems(2) have dist: "distinct (map id_artwork (rows_of fetch (currentPageToFetch s)))"
      by blast
    note body = loop_body_first_seen[OF Suc.prems(1) dist, of n]
    show ?thesis
    proof (cases c)
      case Break
      with True b have "walk_prefix (Suc k) fetch n s = (Break, s1)" by simp
      with body b show ?thesis by simp
    next
      case Continue
      with True b have w: "walk_prefix (Suc k) fetch n s = walk_prefix k fetch n s1" by simp
      from body b Continue have inv1: "selectedItems s1 = first_seen (fetched_rows fetch (net s1))"
        by simp
      from Suc.prems(2) w have "\<forall>p\<in>set (requested_pages (net (snd (walk_prefix k fetch n s1)))).
           distinct (map id_artwork (rows_of fetch p))" by simp
      from Suc.IH[OF inv1 this] w show ?thesis by simp
    qed
  qed
qed



lemma parseInt10_one: "parseInt10 (ascii ''1'') = Some 1"
  by (simp add: parseInt10_def ascii_def isWhiteSpace_def isDigit_def digitsValue_def)


lemma ever_more_continues:
  "selectedItems s = [] \<Longrightarrow> fst (walk_prefix k ever_more 1 s) = Continue"
proof (induction k arbitrary: s)
  case 0
  then show ?case by simp
next
  case (Suc k)
  let ?s1 = "snd (loop_body ever_more 1 s)"
  have b: "fst (loop_body ever_more 1 s) = Continue" and e: "selectedItems ?s1 = []"
    using Suc.prems
    by (simp_all add: loop_body_def Let_def ever_more_def slice0_def uniqueItems_def)
  from e have "fst (walk_prefix k ever_more 1 ?s1) = Continue" by (rule Suc.IH)
  with b Suc.prems show ?case by (simp add: case_prod_beta)
qed

lemma ever_more_diverges: "walk_loop ever_more 1 walk_init = None"
proof (rule ccontr)
  assume "walk_loop ever_more 1 walk_init \<noteq> None"
  then obtain s where "walk_loop ever_more 1 walk_init = Some s" by blast
  then obtain k where "walk_prefix k ever_more 1 walk_init = (Break, s)"
    using walk_loop_Some_prefix by blast
  moreover have "fst (walk_prefix k ever_more 1 walk_init) = Continue"
    by (rule ever_more_continues) (simp add: walk_init_def)
  ultimately show False by simp
qed

lemma loop_body_pass:
  assumes "int (length (selectedItems s)) < n"
  shows "(fst (loop_body fetch n s) = Break
            \<and> int (length (selectedItems (snd (loop_body fetch n s)))) = n)
       \<or> (fst (loop_body fetch n s) = Break
            \<and> int (length (selectedItems (snd (loop_body fetch n s)))) < n
            \<and> currentPageToFetch (snd (loop_body fetch n s)) = currentPageToFetch s
            \<and> (\<exists>d rows. fetch (currentPageToFetch s) = Resolved (Some d) \<and> data d = Some rows
                  \<and> n - int (length (selectedItems s)) \<le> int (length rows)
                  \<and> int (length (uniqueItems (selectedItems s) rows))
                       < n - int (length (selectedItems s))))
       \<or> (fst (loop_body fetch n s) = Break
            \<and> (\<exists>d rows. fetch (currentPageToFetch s) = Resolved (Some d) \<and> data d = Some rows
                  \<and> int (length rows) < n - int (length (selectedItems s))
                  \<and> \<not> (\<exists>pg. pagination d = Some pg \<and> current_page pg < total_pages pg)))
       \<or> (fst (loop_body fetch n s) = Break
            \<and> (fetch (currentPageToFetch s) = Rejected
                \<or> fetch (currentPageToFetch s) = Resolved None
                \<or> (\<exists>d. fetch (currentPageToFetch s) = Resolved (Some d) \<and> data d = None)))
       \<or> (fst (loop_body fetch n s) = Continue
            \<and> currentPageToFetch (snd (loop_body fetch n s)) = currentPageToFetch s + 1
            \<and> (\<exists>d rows pg. fetch (currentPageToFetch s) = Resolved (Some d) \<and> data d = Some rows
                  \<and> int (length rows) < n - int (length (selectedItems s))
                  \<and> pagination d = Some pg \<and> current_page pg < total_pages pg))"
proof (cases "\<exists>d rows. fetch (currentPageToFetch s) = Resolved (Some d) \<and> data d = Some rows")
  case False
  then have "fst (loop_body fetch n s) = Break"
    by (auto simp: loop_body_def Let_def split: fetch_outcome.splits option.splits)
  moreover from False have "fetch (currentPageToFetch s) = Rejected
      \<or> fetch (currentPageToFetch s) = Resolved None
      \<or> (\<exists>d. fetch (currentPageToFetch s) = Resolved (Some d) \<and> data d = None)"
    by (cases "fetch (currentPageToFetch s)") auto
  ultimately show ?thesis by blast
next
  case True
  then obtain d rows where d: "fetch (currentPageToFetch s) = Resolved (Some d)"
      "data d = Some rows" by blast
  let ?r = "n - int (length (selectedItems s))"
  let ?U = "uniqueItems (selectedItems s) rows"
  note sel = loop_body_data(1)[where fetch=fetch and s=s and n=n, OF d]
  note ctl = loop_body_data(2)[where fetch=fetch and s=s and n=n, OF d]
  note cur = loop_body_cursor[of fetch n s]
  have rpos: "0 < ?r" using assms by simp
  show ?thesis
  proof (cases "int (length rows) < ?r")
    case True
    show ?thesis
    proof (cases "\<exists>pg. pagination d = Some pg \<and> current_page pg < total_pages pg")
      case True
      with \<open>int (length rows) < ?r\<close> ctl cur d show ?thesis by auto
    next
      case False
      with \<open>int (length rows) < ?r\<close> ctl d show ?thesis by auto
    qed
  next
    case False
    with ctl have b: "fst (loop_body fetch n s) = Break" by simp
    with cur have c: "currentPageToFetch (snd (loop_body fetch n s)) = currentPageToFetch s"
      by simp
    have sl: "slice0 ?r ?U = take (nat ?r) ?U" using rpos by (simp add: slice0_def)
    show ?thesis
    proof (cases "int (length ?U) < ?r")
      case True
      with sel sl have "int (length (selectedItems (snd (loop_body fetch n s)))) < n" by simp
      with b c d False True show ?thesis by auto
    next
      case False
      with sel sl rpos have "int (length (selectedItems (snd (loop_body fetch n s)))) = n"
        by simp
      with b show ?thesis by simp
    qed
  qed
qed


lemma fetchArtworks_failed_keeps_view:
  assumes "fetch p = Rejected \<or> fetch p = Resolved None
           \<or> (\<exists>d. fetch p = Resolved (Some d) \<and> data d = None)"
  shows "loading (fetchArtworks fetch p st) = False
       \<and> artworks (fetchArtworks fetch p st) = artworks st
       \<and> totalRecords (fetchArtworks fetch p st) = totalRecords st
       \<and> currentPage (fetchArtworks fetch p st) = currentPage st
       \<and> console (fetchArtworks fetch p st) =
           (if fetch p = Rejected then console st @ [(ConsoleError, msg_fetch_error)]
            else console st)"
  using assms by (auto simp: fetchArtworks_def)

section \<open>The claims\<close>

subsection \<open>C1: a walk over enough records returns exactly the target\<close>

text \<open>
  C1 says that whenever at least \<open>target\<close> unique records are reachable by sequential
  paging, the walk returns exactly \<open>target\<close> records. The code decides whether a page
  suffices by its raw length, before deduplication. In \<open>scenario_overlap\<close> three unique
  records are reachable over three pages and the target is 3; page 2 holds one record,
  which is already selected, so the walk stops after page 2 with two records.
\<close>

theorem C1_counterexample:
  "scenario_overlap 1 = sample_page [sample_artwork 1 ''a'', sample_artwork 2 ''a''] 1 3
   \<and> scenario_overlap 2 = sample_page [sample_artwork 1 ''a''] 2 3
   \<and> scenario_overlap 3 = sample_page [sample_artwork 3 ''a''] 3 3
   \<and> walk_loop scenario_overlap 3 walk_init =
       Some \<lparr>selectedItems = [sample_artwork 1 ''a'', sample_artwork 2 ''a''],
             currentPageToFetch = 2, logged = [],
             net = [Requested 1, Settled 1, Requested 2, Settled 2]\<rparr>
   \<and> length [sample_artwork 1 ''a'', sample_artwork 2 ''a''] \<noteq> 3"
proof -
  have "walk_prefix (Suc (Suc 0)) scenario_overlap 3 walk_init =
      (Break, \<lparr>selectedItems = [sample_artwork 1 ''a'', sample_artwork 2 ''a''],
                currentPageToFetch = 2, logged = [],
                net = [Requested 1, Settled 1, Requested 2, Settled 2]\<rparr>)"
    by (simp add: walk_defs scenario_defs)
  then have "walk_loop scenario_overlap 3 walk_init =
      Some \<lparr>selectedItems = [sample_artwork 1 ''a'', sample_artwork 2 ''a''],
            currentPageToFetch = 2, logged = [],
            net = [Requested 1, Settled 1, Requested 2, Settled 2]\<rparr>"
    by (rule walk_prefix_Break)
  then show ?thesis by (simp add: scenario_overlap_def)
qed

text \<open>
  C1 as amended. Let \<open>pages\<close> list what pages 1, 2, ... deliver, and let them hold at least
  \<open>n > 0\<close> different ids. Of every page that is reached with a positive need
  (\<open>remaining_before\<close>) it is assumed that
  \<^item> it is delivered with these rows, and reports \<open>current_page < total_pages\<close> if its raw
    length is below the need;
  \<^item> it repeats no id within itself;
  \<^item> if its raw length meets the need, then so does the number of its records that are
    on no earlier page (the case of C2 does not arise).
  Pages may share records. Then the walk returns, and its result is the first \<open>n\<close>
  records of the pages in first-seen order: exactly \<open>n\<close> records with pairwise
  different ids, each the first record with its id.
\<close>

theorem C1_selection_in_first_seen_order:
  assumes "0 < n"
    and "\<forall>j<length pages. 0 < remaining_before n pages j \<longrightarrow>
        (\<exists>d. fetch (int j + 1) = Resolved (Some d) \<and> data d = Some (pages ! j)
           \<and> (int (length (pages ! j)) < remaining_before n pages j \<longrightarrow>
                (\<exists>pg. pagination d = Some pg \<and> current_page pg < total_pages pg)))
        \<and> distinct (map id_artwork (pages ! j))
        \<and> (remaining_before n pages j \<le> int (length (pages ! j)) \<longrightarrow>
             remaining_before n pages j
               \<le> int (length (uniqueItems (concat (take j pages)) (pages ! j))))"
    and "n \<le> int (length (first_seen (concat pages)))"
  shows "\<exists>s'. walk_loop fetch n walk_init = Some s'
           \<and> selectedItems s' = take (nat n) (first_seen (concat pages))
           \<and> int (length (selectedItems s')) = n
           \<and> distinct (map id_artwork (selectedItems s'))
           \<and> (\<forall>x\<in>set (selectedItems s'). \<exists>j<length (concat pages). concat pages ! j = x
                 \<and> (\<forall>i<j. id_artwork (concat pages ! i) \<noteq> id_artwork x))"
proof -
  have "currentPageToFetch walk_init = int 0 + 1" by (simp add: walk_init_def)
  moreover have "selectedItems walk_init = first_seen (concat (take 0 pages))"
    by (simp add: walk_init_def first_seen_def)
  moreover have "int (length (selectedItems walk_init)) < n"
    using assms(1) by (simp add: walk_init_def)
  ultimately obtain s' where s': "walk_loop fetch n walk_init = Some s'"
      "selectedItems s' = take (nat n) (first_seen (concat pages))"
    using walk_first_seen_pages[OF assms(2) assms(3)] by blast
  have "int (length (take (nat n) (first_seen (concat pages)))) = n" using assms(1,3) by simp
  moreover have "distinct (take (nat n) (map id_artwork (first_seen (concat pages))))"
    using distinct_first_seen by (rule distinct_take)
  then have "distinct (map id_artwork (take (nat n) (first_seen (concat pages))))"
    by (simp add: take_map)
  moreover have "\<exists>j<length (concat pages). concat pages ! j = x
      \<and> (\<forall>i<j. id_artwork (concat pages ! i) \<noteq> id_artwork x)"
    if "x \<in> set (take (nat n) (first_seen (concat pages)))" for x
  proof -
    from that have "x \<in> set (first_seen (concat pages))" by (rule in_set_takeD)
    then show ?thesis by (rule first_seen_is_first)
  qed
  ultimately show ?thesis using s' by simp
qed

text \<open>
  \<open>scenario_shared\<close>: page 1 holds records 1, 2, 3 and page 2 holds records 3, 4, 5, 6, with
  record 3 under another title. With target 5 the walk returns records 1 to 5, record 3
  as page 1 has it.
\<close>

theorem C1_witness:
  "\<exists>s'. walk_loop scenario_shared 5 walk_init = Some s'
     \<and> selectedItems s' = [sample_artwork 1 ''a'', sample_artwork 2 ''a'', sample_artwork 3 ''a'',
                            sample_artwork 4 ''b'', sample_artwork 5 ''b'']
     \<and> int (length (selectedItems s')) = 5
     \<and> distinct (map id_artwork (selectedItems s'))"
proof -
  let ?pages = "[shared_first, shared_second]"
  have reach: "\<forall>j<length ?pages. 0 < remaining_before 5 ?pages j \<longrightarrow>
        (\<exists>d. scenario_shared (int j + 1) = Resolved (Some d) \<and> data d = Some (?pages ! j)
           \<and> (int (length (?pages ! j)) < remaining_before 5 ?pages j \<longrightarrow>
                (\<exists>pg. pagination d = Some pg \<and> current_page pg < total_pages pg)))
        \<and> distinct (map id_artwork (?pages ! j))
        \<and> (remaining_before 5 ?pages j \<le> int (length (?pages ! j)) \<longrightarrow>
             remaining_before 5 ?pages j
               \<le> int (length (uniqueItems (concat (take j ?pages)) (?pages ! j))))"
  proof (intro allI impI)
    fix j assume "j < length ?pages" and "0 < remaining_before 5 ?pages j"
    from this(1) consider "j = 0" | "j = 1" by fastforce
    then show "(\<exists>d. scenario_shared (int j + 1) = Resolved (Some d) \<and> data d = Some (?pages ! j)
           \<and> (int (length (?pages ! j)) < remaining_before 5 ?pages j \<longrightarrow>
                (\<exists>pg. pagination d = Some pg \<and> current_page pg < total_pages pg)))
        \<and> distinct (map id_artwork (?pages ! j))
        \<and> (remaining_before 5 ?pages j \<le> int (length (?pages ! j)) \<longrightarrow>
             remaining_before 5 ?pages j
               \<le> int (length (uniqueItems (concat (take j ?pages)) (?pages ! j))))"
      by cases (simp_all add: scenario_shared_def sample_page_def first_seen_eval)
  qed
  have enough: "(5::int) \<le> int (length (first_seen (concat ?pages)))"
    by (simp add: first_seen_eval)
  have tk: "take (nat 5) (first_seen (concat ?pages)) =
      [sample_artwork 1 ''a'', sample_artwork 2 ''a'', sample_artwork 3 ''a'',
       sample_artwork 4 ''b'', sample_artwork 5 ''b'']"
    by (simp add: first_seen_eval)
  have "(0::int) < 5" by simp
  from C1_selection_in_first_seen_order[of 5 ?pages scenario_shared, OF this reach enough]
  obtain s' where "walk_loop scenario_shared 5 walk_init = Some s'"
      "selectedItems s' = take (nat 5) (first_seen (concat ?pages))"
      "int (length (selectedItems s')) = 5"
      "distinct (map id_artwork (selectedItems s'))"
    by blast
  with tk show ?thesis by simp
qed

subsection \<open>C2: a page judged sufficient by its raw length ends the walk\<close>

text \<open>
  C2: let the walk, started in \<open>s0\<close>, stand at the loop test in state \<open>s\<close> with the
  accumulator below the target, and let the page it fetches there hold at least as many
  records as are still needed, of which fewer than needed are not yet selected. Then the
  walk returns right after that page: the unseen records are appended, the accumulator is
  still below the target, the page cursor has not moved, and no further request is made.
  Nothing is assumed about the pagination data, so this holds also when more pages exist.
\<close>

theorem C2_sufficient_page_stops:
  assumes "walk_prefix k fetch n s0 = (Continue, s)"
    and "int (length (selectedItems s)) < n"
    and "fetch (currentPageToFetch s) = Resolved (Some d)"
    and "data d = Some rows"
    and "n - int (length (selectedItems s)) \<le> int (length rows)"
    and "int (length (uniqueItems (selectedItems s) rows)) < n - int (length (selectedItems s))"
  shows "walk_loop fetch n s0 =
           Some (s\<lparr>net := net s @ awaited_get (currentPageToFetch s),
                   selectedItems := selectedItems s @ uniqueItems (selectedItems s) rows\<rparr>)
         \<and> int (length (selectedItems s @ uniqueItems (selectedItems s) rows)) < n"
proof -
  let ?r = "n - int (length (selectedItems s))"
  have sl: "slice0 ?r (uniqueItems (selectedItems s) rows) = uniqueItems (selectedItems s) rows"
    using assms(6) by (simp add: slice0_all)
  have "loop_body fetch n s =
      (Break, s\<lparr>net := net s @ awaited_get (currentPageToFetch s),
                selectedItems := selectedItems s @ uniqueItems (selectedItems s) rows\<rparr>)"
    using assms(3,4,5) sl by (simp add: loop_body_def Let_def)
  then have "walk_loop fetch n s =
      Some (s\<lparr>net := net s @ awaited_get (currentPageToFetch s),
              selectedItems := selectedItems s @ uniqueItems (selectedItems s) rows\<rparr>)"
    using walk_loop_step(2)[OF assms(2), of fetch] by simp
  moreover have "walk_loop fetch n s0 = walk_loop fetch n s"
    using assms(1) by (rule walk_prefix_Continue)
  ultimately show ?thesis using assms(6) by simp
qed

text \<open>
  In \<open>scenario_overlap\<close> with target 3 the walk stands at page 2 with two records; page
  2 holds one record, already selected, and reports page 2 of 3. The walk returns the two
  records and never asks for page 3, which holds a third record.
\<close>

theorem C2_witness:
  "walk_loop scenario_overlap 3 walk_init =
     Some \<lparr>selectedItems = [sample_artwork 1 ''a'', sample_artwork 2 ''a''],
           currentPageToFetch = 2, logged = [],
           net = [Requested 1, Settled 1, Requested 2, Settled 2]\<rparr>
   \<and> scenario_overlap 2 = sample_page [sample_artwork 1 ''a''] 2 3
   \<and> scenario_overlap 3 = sample_page [sample_artwork 3 ''a''] 3 3"
proof -
  let ?s = "\<lparr>selectedItems = [sample_artwork 1 ''a'', sample_artwork 2 ''a''],
             currentPageToFetch = 2, logged = [], net = [Requested 1, Settled 1]\<rparr>"
  let ?d = "\<lparr>data = Some [sample_artwork 1 ''a''],
             pagination = Some \<lparr>total_count = 100, current_page = 2, total_pages = 3\<rparr>\<rparr>"
  have p: "walk_prefix (Suc 0) scenario_overlap 3 walk_init = (Continue, ?s)"
    by (simp add: walk_defs scenario_defs)
  have l: "int (length (selectedItems ?s)) < 3" by simp
  have f: "scenario_overlap (currentPageToFetch ?s) = Resolved (Some ?d)"
    by (simp add: scenario_defs)
  have d: "data ?d = Some [sample_artwork 1 ''a'']" by simp
  have raw: "3 - int (length (selectedItems ?s)) \<le> int (length [sample_artwork 1 ''a''])"
    by simp
  have short: "int (length (uniqueItems (selectedItems ?s) [sample_artwork 1 ''a'']))
      < 3 - int (length (selectedItems ?s))"
    by (simp add: uniqueItems_def sample_artwork_def)
  from C2_sufficient_page_stops[OF p l f d raw short]
  have "walk_loop scenario_overlap 3 walk_init =
     Some \<lparr>selectedItems = [sample_artwork 1 ''a'', sample_artwork 2 ''a''],
           currentPageToFetch = 2, logged = [],
           net = [Requested 1, Settled 1, Requested 2, Settled 2]\<rparr>"
    by (simp add: uniqueItems_def awaited_get_def sample_artwork_def)
  moreover have "scenario_overlap 2 = sample_page [sample_artwork 1 ''a''] 2 3"
    by (simp add: scenario_overlap_def)
  moreover have "scenario_overlap 3 = sample_page [sample_artwork 3 ''a''] 3 3"
    by (simp add: scenario_overlap_def)
  ultimately show ?thesis by (intro conjI)
qed

subsection \<open>C3: no id is selected twice\<close>

text \<open>
  C3 is stated for every sequence of fetched pages. The filter compares a record only with
  the records selected before its page was fetched, so an id that occurs twice within one
  page is selected twice: page 1 of \<open>scenario_dup_page\<close> lists record 1 twice, and with
  target 2 both copies are selected.
\<close>

theorem C3_counterexample:
  "scenario_dup_page 1 = sample_page [sample_artwork 1 ''a'', sample_artwork 1 ''a''] 1 1
   \<and> walk_loop scenario_dup_page 2 walk_init =
       Some \<lparr>selectedItems = [sample_artwork 1 ''a'', sample_artwork 1 ''a''],
             currentPageToFetch = 1, logged = [], net = [Requested 1, Settled 1]\<rparr>
   \<and> \<not> distinct (map id_artwork [sample_artwork 1 ''a'', sample_artwork 1 ''a''])"
proof -
  have "walk_prefix (Suc 0) scenario_dup_page 2 walk_init =
      (Break, \<lparr>selectedItems = [sample_artwork 1 ''a'', sample_artwork 1 ''a''],
             currentPageToFetch = 1, logged = [], net = [Requested 1, Settled 1]\<rparr>)"
    by (simp add: walk_defs scenario_defs)
  then have "walk_loop scenario_dup_page 2 walk_init =
       Some \<lparr>selectedItems = [sample_artwork 1 ''a'', sample_artwork 1 ''a''],
             currentPageToFetch = 1, logged = [], net = [Requested 1, Settled 1]\<rparr>"
    by (rule walk_prefix_Break)
  then show ?thesis by (simp add: scenario_dup_page_def)
qed

text \<open>
  C3 as amended. Let \<open>s\<close> be the state of the walk after any number \<open>k\<close> of passes, or the
  state the walk returns, for any target and any fetcher, and let none of the pages
  requested up to \<open>s\<close> repeat an id within itself (pages never requested are not
  constrained, and pages may share records). Then the selected records have pairwise
  different ids, and the selection is an initial part of the first-seen list of the rows
  fetched so far: every selected record is the first record with its id in the
  concatenation of the fetched pages.
\<close>

theorem C3_no_duplicate_ids:
  assumes "s = snd (walk_prefix k fetch n walk_init) \<or> walk_loop fetch n walk_init = Some s"
    and "\<forall>p\<in>set (requested_pages (net s)). distinct (map id_artwork (rows_of fetch p))"
  shows "distinct (map id_artwork (selectedItems s))
       \<and> (\<exists>zs. first_seen (fetched_rows fetch (net s)) = selectedItems s @ zs)
       \<and> (\<forall>x\<in>set (selectedItems s). \<exists>j<length (fetched_rows fetch (net s)).
             fetched_rows fetch (net s) ! j = x
             \<and> (\<forall>i<j. id_artwork (fetched_rows fetch (net s) ! i) \<noteq> id_artwork x))"
proof -
  from assms(1) obtain j where j: "s = snd (walk_prefix j fetch n walk_init)"
  proof
    assume "s = snd (walk_prefix k fetch n walk_init)"
    then show ?thesis by (rule that)
  next
    assume "walk_loop fetch n walk_init = Some s"
    then obtain i where "walk_prefix i fetch n walk_init = (Break, s)"
      using walk_loop_Some_prefix by blast
    then have "s = snd (walk_prefix i fetch n walk_init)" by simp
    then show ?thesis by (rule that)
  qed
  have "selectedItems walk_init = first_seen (fetched_rows fetch (net walk_init))"
    by (simp add: walk_init_def fetched_rows_def first_seen_def)
  moreover have "\<forall>p\<in>set (requested_pages (net (snd (walk_prefix j fetch n walk_init)))).
           distinct (map id_artwork (rows_of fetch p))"
    using assms(2) j by simp
  ultimately obtain zs where zs: "first_seen (fetched_rows fetch (net s)) = selectedItems s @ zs"
    using walk_prefix_first_seen[of walk_init fetch j n] j by auto
  have "distinct (map id_artwork (first_seen (fetched_rows fetch (net s))))"
    by (rule distinct_first_seen)
  with zs have d: "distinct (map id_artwork (selectedItems s))" by simp
  have "\<exists>j<length (fetched_rows fetch (net s)). fetched_rows fetch (net s) ! j = x
      \<and> (\<forall>i<j. id_artwork (fetched_rows fetch (net s) ! i) \<noteq> id_artwork x)"
    if "x \<in> set (selectedItems s)" for x
  proof -
    from that zs have "x \<in> set (first_seen (fetched_rows fetch (net s)))" by simp
    then show ?thesis by (rule first_seen_is_first)
  qed
  with d zs show ?thesis by blast
qed

text \<open>
  In \<open>scenario_dedup\<close> record 2 is on page 1 and again, with another title, on page 2; page
  3, which repeats an id, is never requested. With target 3 the result holds the copy of
  page 1 only.
\<close>

theorem C3_witness:
  "walk_loop scenario_dedup 3 walk_init =
     Some \<lparr>selectedItems = [sample_artwork 1 ''first'', sample_artwork 2 ''first'',
                            sample_artwork 3 ''later''],
           currentPageToFetch = 2, logged = [],
           net = [Requested 1, Settled 1, Requested 2, Settled 2]\<rparr>
   \<and> fetched_rows scenario_dedup [Requested 1, Settled 1, Requested 2, Settled 2] =
       [sample_artwork 1 ''first'', sample_artwork 2 ''first'',
        sample_artwork 2 ''later'', sample_artwork 3 ''later'']
   \<and> (\<exists>zs. first_seen (fetched_rows scenario_dedup [Requested 1, Settled 1, Requested 2, Settled 2])
        = [sample_artwork 1 ''first'', sample_artwork 2 ''first'', sample_artwork 3 ''later''] @ zs)
   \<and> distinct (map id_artwork [sample_artwork 1 ''first'', sample_artwork 2 ''first'',
                            sample_artwork 3 ''later''])
   \<and> \<not> distinct (map id_artwork (rows_of scenario_dedup 3))"
proof -
  let ?S = "\<lparr>selectedItems = [sample_artwork 1 ''first'', sample_artwork 2 ''first'',
                            sample_artwork 3 ''later''],
           currentPageToFetch = 2, logged = [],
           net = [Requested 1, Settled 1, Requested 2, Settled 2]\<rparr>"
  have "walk_prefix (Suc (Suc 0)) scenario_dedup 3 walk_init = (Break, ?S)"
    by (simp add: walk_defs scenario_defs)
  then have l: "walk_loop scenario_dedup 3 walk_init = Some ?S"
    by (rule walk_prefix_Break)
  have pages: "\<forall>p\<in>set (requested_pages (net ?S)). distinct (map id_artwork (rows_of scenario_dedup p))"
    by (simp add: rows_of_def scenario_dedup_def sample_page_def sample_artwork_def)
  have rows: "fetched_rows scenario_dedup [Requested 1, Settled 1, Requested 2, Settled 2] =
       [sample_artwork 1 ''first'', sample_artwork 2 ''first'',
        sample_artwork 2 ''later'', sample_artwork 3 ''later'']"
    by (simp add: fetched_rows_def rows_of_def scenario_dedup_def sample_page_def)
  have far: "\<not> distinct (map id_artwork (rows_of scenario_dedup 3))"
    by (simp add: rows_of_def scenario_dedup_def sample_page_def sample_artwork_def)
  from C3_no_duplicate_ids[where s = ?S and fetch = scenario_dedup and n = 3 and k = 0,
      OF disjI2[OF l] pages]
  have "distinct (map id_artwork (selectedItems ?S))"
    and "\<exists>zs. first_seen (fetched_rows scenario_dedup (net ?S)) = selectedItems ?S @ zs"
    by blast+
  with l rows far show ?thesis by simp
qed

subsection \<open>C4: a failed fetch ends the walk with the partial selection\<close>

text \<open>
  C4: let the walk of \<open>handleSubmit\<close> stand at the loop test in state \<open>s\<close> after \<open>k\<close>
  passes, with the accumulator below the target, and let the fetch of the next page fail:
  the request is rejected, or the response has no body, or the body has no \<open>data\<close>.
  Then the walk returns; its result is the accumulator of \<open>s\<close>, unchanged; one error is
  logged; and \<open>handleSubmit\<close> completes normally with that accumulator as the selected
  set and the overlay closed. The model has no outcome other than returning a state or
  never returning, so a returned state is a call that ended without an exception.
\<close>

theorem C4_failed_fetch_returns_partial:
  assumes "walk_prefix k fetch n walk_init = (Continue, s)"
    and "int (length (selectedItems s)) < n"
    and "fetch (currentPageToFetch s) = Rejected
         \<or> fetch (currentPageToFetch s) = Resolved None
         \<or> (\<exists>d. fetch (currentPageToFetch s) = Resolved (Some d) \<and> data d = None)"
    and "parseInt10 (inputValue st) = Some n"
  shows "\<exists>s'. walk_loop fetch n walk_init = Some s'
           \<and> selectedItems s' = selectedItems s
           \<and> currentPageToFetch s' = currentPageToFetch s
           \<and> net s' = net s @ awaited_get (currentPageToFetch s)
           \<and> (\<exists>msg. logged s' = logged s @ [(ConsoleError, msg)])
           \<and> handleSubmit fetch st =
               Some (st\<lparr>overlayLoading := False, selectedArtworks := selectedItems s,
                        overlayVisible := False, console := console st @ logged s',
                        network := network st @ net s'\<rparr>)"
proof -
  let ?s' = "snd (loop_body fetch n s)"
  from assms(3) have b: "fst (loop_body fetch n s) = Break"
    and sel: "selectedItems ?s' = selectedItems s"
    and lg: "\<exists>msg. logged ?s' = logged s @ [(ConsoleError, msg)]"
    by (auto simp: loop_body_def)
  have "walk_loop fetch n s = Some ?s'" using walk_loop_step(2)[OF assms(2) b] .
  moreover have "walk_loop fetch n walk_init = walk_loop fetch n s"
    using assms(1) by (rule walk_prefix_Continue)
  ultimately have w: "walk_loop fetch n walk_init = Some ?s'" by simp
  have pos: "0 < n" using assms(2) by simp
  have "handleSubmit fetch st =
      Some (st\<lparr>overlayLoading := False, selectedArtworks := selectedItems ?s',
               overlayVisible := False, console := console st @ logged ?s',
               network := network st @ net ?s'\<rparr>)"
    using assms(4) pos w by (rule handleSubmit_valid)
  with w sel lg loop_body_net[of fetch n s] loop_body_cursor[of fetch n s] b
  show ?thesis by simp
qed

text \<open>
  In \<open>scenario_fail\<close> page 1 delivers two records and the request for page 2 is rejected.
  With input \<open>5\<close> the selected set is the two records of page 1.
\<close>

theorem C4_witness:
  "handleSubmit scenario_fail (sample_component (ascii ''5'')) =
     Some ((sample_component (ascii ''5''))
             \<lparr>overlayLoading := False,
              selectedArtworks := [sample_artwork 1 ''a'', sample_artwork 2 ''a''],
              overlayVisible := False,
              console := [(ConsoleError, msg_fetch_error)],
              network := [Requested 1, Settled 1, Requested 2, Settled 2]\<rparr>)"
proof -
  let ?s = "\<lparr>selectedItems = [sample_artwork 1 ''a'', sample_artwork 2 ''a''],
             currentPageToFetch = 2, logged = [], net = [Requested 1, Settled 1]\<rparr>"
  have l: "int (length (selectedItems ?s)) < 5" by simp
  have f: "scenario_fail (currentPageToFetch ?s) = Rejected
         \<or> scenario_fail (currentPageToFetch ?s) = Resolved None
         \<or> (\<exists>d. scenario_fail (currentPageToFetch ?s) = Resolved (Some d) \<and> data d = None)"
    by (simp add: scenario_fail_def)
  have p: "parseInt10 (inputValue (sample_component (ascii ''5''))) = Some 5"
    by (simp add: sample_component_def parseInt10_samples)
  from C4_failed_fetch_returns_partial[OF run_fail_prefix l f p]
  obtain s' where s': "walk_loop scenario_fail 5 walk_init = Some s'"
      "net s' = net ?s @ awaited_get (currentPageToFetch ?s)"
      "handleSubmit scenario_fail (sample_component (ascii ''5'')) =
         Some ((sample_component (ascii ''5''))
                 \<lparr>overlayLoading := False, selectedArtworks := selectedItems ?s,
                  overlayVisible := False,
                  console := console (sample_component (ascii ''5'')) @ logged s',
                  network := network (sample_component (ascii ''5'')) @ net s'\<rparr>)"
    by blast
  have "walk_prefix (Suc (Suc 0)) scenario_fail 5 walk_init =
      (Break, ?s\<lparr>logged := [(ConsoleError, msg_fetch_error)],
                 net := [Requested 1, Settled 1, Requested 2, Settled 2]\<rparr>)"
    by (simp add: loop_body_def walk_init_def awaited_get_def slice0_def uniqueItems_def
        scenario_defs)
  then have "walk_loop scenario_fail 5 walk_init =
      Some (?s\<lparr>logged := [(ConsoleError, msg_fetch_error)],
                 net := [Requested 1, Settled 1, Requested 2, Settled 2]\<rparr>)"
    by (rule walk_prefix_Break)
  with s'(1) have "logged s' = [(ConsoleError, msg_fetch_error)]" by auto
  with s'(2,3) show ?thesis by (simp add: sample_component_def awaited_get_def)
qed

subsection \<open>C5: an invalid input never reaches the fetcher\<close>




subsection \<open>C6: the walk terminates\<close>

text \<open>
  C6 fails in two ways. First, not every pass of the loop fills the accumulator, or detects
  exhaustion, an error or missing data, or advances the cursor: in \<open>scenario_overlap\<close>
  with target 3 the second pass is left on a delivered page that reports page 2 of 3,
  with two records selected and the cursor still at 2. Second, a finite \<open>total_pages\<close> in
  every response does not bound the walk: \<open>ever_more\<close> answers the request for page \<open>p\<close>
  with an empty page \<open>p\<close> of \<open>p + 1\<close>, and the walk for one record never returns.
\<close>

theorem C6_counterexample:
  "walk_prefix (Suc 0) scenario_overlap 3 walk_init =
     (Continue, \<lparr>selectedItems = [sample_artwork 1 ''a'', sample_artwork 2 ''a''],
                 currentPageToFetch = 2, logged = [], net = [Requested 1, Settled 1]\<rparr>)
   \<and> scenario_overlap 2 =
       Resolved (Some \<lparr>data = Some [sample_artwork 1 ''a''],
                       pagination = Some \<lparr>total_count = 100, current_page = 2,
                                           total_pages = 3\<rparr>\<rparr>)
   \<and> loop_body scenario_overlap 3
         \<lparr>selectedItems = [sample_artwork 1 ''a'', sample_artwork 2 ''a''],
          currentPageToFetch = 2, logged = [], net = [Requested 1, Settled 1]\<rparr> =
       (Break, \<lparr>selectedItems = [sample_artwork 1 ''a'', sample_artwork 2 ''a''],
                currentPageToFetch = 2, logged = [],
                net = [Requested 1, Settled 1, Requested 2, Settled 2]\<rparr>)
   \<and> int (length [sample_artwork 1 ''a'', sample_artwork 2 ''a'']) < 3
   \<and> ever_more 1 =
       Resolved (Some \<lparr>data = Some [],
                       pagination = Some \<lparr>total_count = 0, current_page = 1,
                                           total_pages = 2\<rparr>\<rparr>)
   \<and> ever_more 2 =
       Resolved (Some \<lparr>data = Some [],
                       pagination = Some \<lparr>total_count = 0, current_page = 2,
                                           total_pages = 3\<rparr>\<rparr>)
   \<and> walk_loop ever_more 1 walk_init = None
   \<and> handleSubmit ever_more (sample_component (ascii ''1'')) = None"
proof -
  have "handleSubmit ever_more (sample_component (ascii ''1'')) = None"
    by (simp add: handleSubmit_def sample_component_def parseInt10_one ever_more_diverges)
  moreover have "walk_prefix (Suc 0) scenario_overlap 3 walk_init =
     (Continue, \<lparr>selectedItems = [sample_artwork 1 ''a'', sample_artwork 2 ''a''],
                 currentPageToFetch = 2, logged = [], net = [Requested 1, Settled 1]\<rparr>)
   \<and> scenario_overlap 2 =
       Resolved (Some \<lparr>data = Some [sample_artwork 1 ''a''],
                       pagination = Some \<lparr>total_count = 100, current_page = 2,
                                           total_pages = 3\<rparr>\<rparr>)
   \<and> loop_body scenario_overlap 3
         \<lparr>selectedItems = [sample_artwork 1 ''a'', sample_artwork 2 ''a''],
          currentPageToFetch = 2, logged = [], net = [Requested 1, Settled 1]\<rparr> =
       (Break, \<lparr>selectedItems = [sample_artwork 1 ''a'', sample_artwork 2 ''a''],
                currentPageToFetch = 2, logged = [],
                net = [Requested 1, Settled 1, Requested 2, Settled 2]\<rparr>)
   \<and> int (length [sample_artwork 1 ''a'', sample_artwork 2 ''a'']) < 3"
    by (simp add: walk_defs scenario_defs)
  moreover have "ever_more 1 =
       Resolved (Some \<lparr>data = Some [],
                       pagination = Some \<lparr>total_count = 0, current_page = 1,
                                           total_pages = 2\<rparr>\<rparr>)"
    and "ever_more 2 =
       Resolved (Some \<lparr>data = Some [],
                       pagination = Some \<lparr>total_count = 0, current_page = 2,
                                           total_pages = 3\<rparr>\<rparr>)"
    by (simp_all add: ever_more_def)
  ultimately show ?thesis using ever_more_diverges by (intro conjI) blast+
qed

text \<open>
  C6 as amended. Let every request settle (a fetcher gives each page an outcome), and let
  every delivered pagination object report the requested page as \<open>current_page\<close> and a
  \<open>total_pages\<close> of at most one fixed \<open>T\<close>. Then for every target the walk returns, and
  \<open>handleSubmit\<close> returns for every input. Every pass either leaves the loop or advances
  the page cursor by exactly one; more precisely, a pass entered with the accumulator
  below the target does exactly one of five things:
  \<^item> it fills the accumulator to the target and stops;
  \<^item> it stops on a page whose raw length meets the need although fewer of its records
    are new, with the accumulator short and the cursor unmoved;
  \<^item> it stops on exhaustion: the page is too short and no further page is reported;
  \<^item> it stops on a rejected request, a missing body or missing data;
  \<^item> it advances the cursor by one: the page is too short and a further page is reported.
\<close>

theorem C6_walk_terminates:
  assumes "\<forall>p d pg. fetch p = Resolved (Some d) \<longrightarrow> pagination d = Some pg
             \<longrightarrow> current_page pg = p \<and> total_pages pg \<le> T"
  shows "(\<exists>s'. walk_loop fetch n walk_init = Some s')
       \<and> (\<exists>st'. handleSubmit fetch st = Some st')
       \<and> (fst (loop_body fetch n s) = Break
            \<or> fst (loop_body fetch n s) = Continue
               \<and> currentPageToFetch (snd (loop_body fetch n s)) = currentPageToFetch s + 1)
       \<and> (int (length (selectedItems s)) < n \<longrightarrow>
           (fst (loop_body fetch n s) = Break
              \<and> int (length (selectedItems (snd (loop_body fetch n s)))) = n)
         \<or> (fst (loop_body fetch n s) = Break
              \<and> int (length (selectedItems (snd (loop_body fetch n s)))) < n
              \<and> currentPageToFetch (snd (loop_body fetch n s)) = currentPageToFetch s
              \<and> (\<exists>d rows. fetch (currentPageToFetch s) = Resolved (Some d) \<and> data d = Some rows
                    \<and> n - int (length (selectedItems s)) \<le> int (length rows)
                    \<and> int (length (uniqueItems (selectedItems s) rows))
                         < n - int (length (selectedItems s))))
         \<or> (fst (loop_body fetch n s) = Break
              \<and> (\<exists>d rows. fetch (currentPageToFetch s) = Resolved (Some d) \<and> data d = Some rows
                    \<and> int (length rows) < n - int (length (selectedItems s))
                    \<and> \<not> (\<exists>pg. pagination d = Some pg \<and> current_page pg < total_pages pg)))
         \<or> (fst (loop_body fetch n s) = Break
              \<and> (fetch (currentPageToFetch s) = Rejected
                  \<or> fetch (currentPageToFetch s) = Resolved None
                  \<or> (\<exists>d. fetch (currentPageToFetch s) = Resolved (Some d) \<and> data d = None)))
         \<or> (fst (loop_body fetch n s) = Continue
              \<and> currentPageToFetch (snd (loop_body fetch n s)) = currentPageToFetch s + 1
              \<and> (\<exists>d rows pg. fetch (currentPageToFetch s) = Resolved (Some d)
                    \<and> data d = Some rows
                    \<and> int (length rows) < n - int (length (selectedItems s))
                    \<and> pagination d = Some pg \<and> current_page pg < total_pages pg)))"
proof -
  have tm: "\<exists>s'. walk_loop fetch m walk_init = Some s'" for m
    using assms by (intro walk_loop_terminates[where T = T]) blast
  have hs: "\<exists>st'. handleSubmit fetch st = Some st'"
  proof (cases "parseInt10 (inputValue st)")
    case None
    then show ?thesis by (simp add: handleSubmit_def)
  next
    case (Some m)
    from tm[of m] obtain s' where "walk_loop fetch m walk_init = Some s'" by blast
    with Some show ?thesis by (simp add: handleSubmit_def)
  qed
  have adv: "fst (loop_body fetch n s) = Break
      \<or> fst (loop_body fetch n s) = Continue
         \<and> currentPageToFetch (snd (loop_body fetch n s)) = currentPageToFetch s + 1"
    using loop_body_cursor[of fetch n s] by (cases "fst (loop_body fetch n s)") simp_all
  from tm[of n] hs adv loop_body_pass[of s n fetch] show ?thesis by (intro conjI impI)
qed

text \<open>
  \<open>scenario_overlap\<close> reports pages 1, 2 and 3 of 3; its first pass for target 3 advances
  the cursor to 2.
\<close>

theorem C6_witness:
  "(\<exists>s'. walk_loop scenario_overlap 3 walk_init = Some s')
   \<and> (\<exists>st'. handleSubmit scenario_overlap (sample_component (ascii ''3'')) = Some st')
   \<and> fst (loop_body scenario_overlap 3 walk_init) = Continue
   \<and> currentPageToFetch (snd (loop_body scenario_overlap 3 walk_init)) = 2"
proof -
  have meta: "\<forall>p d pg. scenario_overlap p = Resolved (Some d) \<longrightarrow> pagination d = Some pg
             \<longrightarrow> current_page pg = p \<and> total_pages pg \<le> 3"
    by (auto simp: scenario_overlap_def sample_page_def split: if_splits)
  note r = C6_walk_terminates[OF meta, of 3 "sample_component (ascii ''3'')" walk_init]
  have l: "int (length (selectedItems walk_init)) < 3" by (simp add: walk_init_def)
  have f: "scenario_overlap (currentPageToFetch walk_init)
      = sample_page [sample_artwork 1 ''a'', sample_artwork 2 ''a''] 1 3"
    by (simp add: walk_init_def scenario_overlap_def)
  from r l have "fst (loop_body scenario_overlap 3 walk_init) = Break
      \<or> fst (loop_body scenario_overlap 3 walk_init) = Continue
         \<and> currentPageToFetch (snd (loop_body scenario_overlap 3 walk_init))
             = currentPageToFetch walk_init + 1"
    by blast
  moreover have "fst (loop_body scenario_overlap 3 walk_init) \<noteq> Break"
    by (simp add: walk_defs scenario_defs)
  ultimately have "fst (loop_body scenario_overlap 3 walk_init) = Continue"
    and "currentPageToFetch (snd (loop_body scenario_overlap 3 walk_init)) = 2"
    by (simp_all add: walk_init_def)
  with r show ?thesis by blast
qed

subsection \<open>C7: pages are fetched in the order 1, 2, 3, ... one at a time\<close>

text \<open>
  C7: at every moment of the walk (after any number \<open>k\<close> of passes, whether or not the
  walk ever returns) the network events of the walk are those of the pages \<open>1, 2, ..., m\<close>
  for some \<open>m\<close>, each request followed by its own settlement before the next request.
  For a positive target the finished walk has fetched page 1 at least, and \<open>handleSubmit\<close>
  adds exactly these events to the network log, whatever \<open>currentPage\<close> the component
  holds.
\<close>

theorem C7_fetches_ascend_from_one:
  "(\<exists>m. net (snd (walk_prefix k fetch n walk_init)) = concat (map awaited_get [1..m]))
   \<and> (0 < n \<longrightarrow> walk_loop fetch n walk_init = Some s' \<longrightarrow>
        (\<exists>m. 1 \<le> m \<and> net s' = concat (map awaited_get [1..m])))
   \<and> (0 < n \<longrightarrow> parseInt10 (inputValue st) = Some n \<longrightarrow> handleSubmit fetch st = Some st' \<longrightarrow>
        (\<exists>m. 1 \<le> m \<and> network st' = network st @ concat (map awaited_get [1..m])))"
proof -
  have pre: "\<exists>m. net (snd (walk_prefix j fetch n walk_init)) = concat (map awaited_get [1..m])
      \<and> (fst (walk_prefix j fetch n walk_init) = Break \<and> 0 < n \<longrightarrow> 1 \<le> m)" for j
    using walk_prefix_net[of walk_init j fetch n] by (auto simp: walk_init_def)
  have fin: "\<exists>m. 1 \<le> m \<and> net r = concat (map awaited_get [1..m])"
    if "0 < n" and "walk_loop fetch n walk_init = Some r" for r
  proof -
    from that(2) obtain j where "walk_prefix j fetch n walk_init = (Break, r)"
      using walk_loop_Some_prefix by blast
    with pre[of j] that(1) show ?thesis by auto
  qed
  have "\<exists>m. 1 \<le> m \<and> network st' = network st @ concat (map awaited_get [1..m])"
    if "0 < n" and "parseInt10 (inputValue st) = Some n" and "handleSubmit fetch st = Some st'"
  proof -
    from that obtain r where r: "walk_loop fetch n walk_init = Some r"
        "network st' = network st @ net r"
      by (auto simp: handleSubmit_def split: option.splits)
    with fin[OF that(1) r(1)] show ?thesis by auto
  qed
  with pre[of k] fin[of s'] show ?thesis by blast
qed

text \<open>
  The view shows page 7; the walk for 20 records over \<open>scenario_disjoint\<close> still requests
  page 1 and then page 2.
\<close>

theorem C7_witness:
  "handleSubmit scenario_disjoint ((sample_component (ascii ''20''))\<lparr>currentPage := 7\<rparr>) =
     Some ((sample_component (ascii ''20''))
             \<lparr>currentPage := 7, overlayLoading := False,
              selectedArtworks := twelve_a @ take 8 twelve_b, overlayVisible := False,
              network := [Requested 1, Settled 1, Requested 2, Settled 2]\<rparr>)
   \<and> (\<exists>m. 1 \<le> m \<and> [Requested 1, Settled 1, Requested 2, Settled 2]
                      = concat (map awaited_get [1..m]))"
proof -
  let ?st = "(sample_component (ascii ''20''))\<lparr>currentPage := 7\<rparr>"
  let ?st' = "(sample_component (ascii ''20''))
             \<lparr>currentPage := 7, overlayLoading := False,
              selectedArtworks := twelve_a @ take 8 twelve_b, overlayVisible := False,
              network := [Requested 1, Settled 1, Requested 2, Settled 2]\<rparr>"
  have p: "parseInt10 (inputValue ?st) = Some 20"
    by (simp add: sample_component_def parseInt10_samples)
  have h: "handleSubmit scenario_disjoint ?st = Some ?st'"
    using handleSubmit_valid[OF p _ run_disjoint] by (simp add: sample_component_def)
  have "\<exists>m. 1 \<le> m \<and> network ?st' = network ?st @ concat (map awaited_get [1..m])"
  proof -
    have "(0::int) < 20" by simp
    with C7_fetches_ascend_from_one[of 0 scenario_disjoint 20 walk_init ?st ?st'] p h
    show ?thesis by blast
  qed
  then have "\<exists>m. 1 \<le> m \<and> [Requested 1, Settled 1, Requested 2, Settled 2]
                      = concat (map awaited_get [1..m])"
    by (simp add: sample_component_def)
  with h show ?thesis by blast
qed

subsection \<open>C8: a failed page fetch leaves the view as it was\<close>

text \<open>
  C8: a failed page fetch of \<open>fetchArtworks\<close> is logged, the loading flag is cleared, and
  rows, total record count and current page stay as they were. For a rejected request the
  code does this (\<open>fetchArtworks_failed_keeps_view\<close>). On two payloads it does not. A body
  with \<open>data\<close> but without \<open>pagination\<close> (\<open>scenario_no_pagination\<close>): \<open>setArtworks\<close> runs,
  then \<open>data.pagination.total\<close> throws and the error is logged; the view shows the new
  rows under the old total and the old page. A body without \<open>data\<close>
  (\<open>scenario_no_data\<close>): nothing is logged, while the walk of \<open>handleSubmit\<close> logs the
  same payload as an error.
\<close>

theorem C8_code_at_failing_inputs:
  "fetchArtworks scenario_no_pagination 2
      ((sample_component [])\<lparr>artworks := twelve_a, totalRecords := 36\<rparr>) =
     (sample_component [])
       \<lparr>artworks := twelve_b, totalRecords := 36,
        console := [(ConsoleError, msg_fetch_error)], network := [Requested 2, Settled 2]\<rparr>
   \<and> currentPage (fetchArtworks scenario_no_pagination 2
        ((sample_component [])\<lparr>artworks := twelve_a, totalRecords := 36\<rparr>)) = 1
   \<and> twelve_b \<noteq> twelve_a
   \<and> fetchArtworks scenario_no_data 2
        ((sample_component [])\<lparr>artworks := twelve_a, totalRecords := 36\<rparr>) =
       (sample_component [])
         \<lparr>artworks := twelve_a, totalRecords := 36, network := [Requested 2, Settled 2]\<rparr>
   \<and> console (fetchArtworks scenario_no_data 2
        ((sample_component [])\<lparr>artworks := twelve_a, totalRecords := 36\<rparr>)) = []
   \<and> loop_body scenario_no_data 5 walk_init =
       (Break, walk_init\<lparr>logged := [(ConsoleError, msg_no_data)],
                         net := [Requested 1, Settled 1]\<rparr>)"
proof -
  have "twelve_b \<noteq> twelve_a" by (simp add: twelve_a_def twelve_b_def sample_artwork_def)
  moreover have "loop_body scenario_no_data 5 walk_init =
       (Break, walk_init\<lparr>logged := [(ConsoleError, msg_no_data)],
                         net := [Requested 1, Settled 1]\<rparr>)"
    by (simp add: loop_body_def scenario_no_data_def walk_init_def awaited_get_def)
  moreover have "fetchArtworks scenario_no_pagination 2
      ((sample_component [])\<lparr>artworks := twelve_a, totalRecords := 36\<rparr>) =
     (sample_component [])
       \<lparr>artworks := twelve_b, totalRecords := 36,
        console := [(ConsoleError, msg_fetch_error)], network := [Requested 2, Settled 2]\<rparr>"
    by (simp add: fetchArtworks_def scenario_no_pagination_def sample_component_def
        awaited_get_def)
  moreover have "fetchArtworks scenario_no_data 2
        ((sample_component [])\<lparr>artworks := twelve_a, totalRecords := 36\<rparr>) =
       (sample_component [])
         \<lparr>artworks := twelve_a, totalRecords := 36, network := [Requested 2, Settled 2]\<rparr>"
    by (simp add: fetchArtworks_def scenario_no_data_def sample_component_def awaited_get_def)
  ultimately show ?thesis by (simp add: sample_component_def)
qed

subsection \<open>C9: page-change events are zero-based, fetches one-based\<close>

text \<open>
  C9: a page-change event with the zero-based index \<open>p\<close> makes \<open>onPageChange\<close> run
  \<open>fetchArtworks\<close> for page \<open>p + 1\<close>, and an event without a page index makes it run
  \<open>fetchArtworks\<close> for page 1; in both cases exactly that page is requested.
\<close>

theorem C9_page_change_is_one_based:
  "onPageChange fetch (event\<lparr>page := Some p\<rparr>) st = fetchArtworks fetch (p + 1) st
   \<and> onPageChange fetch (event\<lparr>page := None\<rparr>) st = fetchArtworks fetch 1 st
   \<and> network (onPageChange fetch (event\<lparr>page := Some p\<rparr>) st)
       = network st @ [Requested (p + 1), Settled (p + 1)]
   \<and> network (onPageChange fetch (event\<lparr>page := None\<rparr>) st)
       = network st @ [Requested 1, Settled 1]"
  by (simp add: onPageChange_def fetchArtworks_network awaited_get_def)

text \<open>
  Index 1 requests page 2 of \<open>scenario_disjoint\<close> and shows its rows; a missing index
  requests page 1.
\<close>

theorem C9_witness:
  "network (onPageChange scenario_disjoint \<lparr>page = Some 1\<rparr> (sample_component []))
     = [Requested 2, Settled 2]
   \<and> network (onPageChange scenario_disjoint \<lparr>page = None\<rparr> (sample_component []))
     = [Requested 1, Settled 1]
   \<and> artworks (onPageChange scenario_disjoint \<lparr>page = Some 1\<rparr> (sample_component []))
     = twelve_b"
proof -
  note r = C9_page_change_is_one_based[where fetch = scenario_disjoint
      and event = "\<lparr>page = None\<rparr>" and p = 1 and st = "sample_component []"]
  have e: "network (sample_component []) = []" by (simp add: sample_component_def)
  from r have "network (onPageChange scenario_disjoint (\<lparr>page = None\<rparr>\<lparr>page := Some 1\<rparr>)
        (sample_component [])) = network (sample_component []) @ [Requested (1 + 1), Settled (1 + 1)]"
    by blast
  then have n1: "network (onPageChange scenario_disjoint \<lparr>page = Some 1\<rparr> (sample_component []))
      = [Requested 2, Settled 2]"
    by (simp add: e)
  from r have "network (onPageChange scenario_disjoint (\<lparr>page = None\<rparr>\<lparr>page := None\<rparr>)
        (sample_component [])) = network (sample_component []) @ [Requested 1, Settled 1]"
    by blast
  then have n2: "network (onPageChange scenario_disjoint \<lparr>page = None\<rparr> (sample_component []))
      = [Requested 1, Settled 1]"
    by (simp add: e)
  have "artworks (fetchArtworks scenario_disjoint (1 + 1) (sample_component [])) = twelve_b"
    by (simp add: fetchArtworks_def scenario_disjoint_def sample_page_def)
  moreover from r have "onPageChange scenario_disjoint (\<lparr>page = None\<rparr>\<lparr>page := Some 1\<rparr>)
        (sample_component []) = fetchArtworks scenario_disjoint (1 + 1) (sample_component [])"
    by blast
  ultimately have a: "artworks (onPageChange scenario_disjoint \<lparr>page = Some 1\<rparr>
      (sample_component [])) = twelve_b"
    by simp
  from n1 n2 a show ?thesis by (intro conjI)
qed

subsection \<open>C10: the walk replaces the selection\<close>

text \<open>
  C10: when the input is a positive number and the walk returns the loop state \<open>s\<close>,
  \<open>handleSubmit\<close> sets the selected set to the accumulator of \<open>s\<close>. The walk starts from
  \<open>walk_init\<close>, which does not mention the component, so the new selected set does not
  depend on the old one: a record selected before that the walk did not collect is not
  selected afterwards.
\<close>

theorem C10_selection_is_replaced:
  assumes "parseInt10 (inputValue st) = Some n" and "0 < n"
    and "walk_loop fetch n walk_init = Some s"
  shows "\<exists>st'. handleSubmit fetch st = Some st'
           \<and> selectedArtworks st' = selectedItems s
           \<and> set (selectedArtworks st') \<inter> (set (selectedArtworks st) - set (selectedItems s)) = {}"
  using handleSubmit_valid[OF assms] by auto

text \<open>
  Record 99 was selected by hand; after the walk for 20 records it is no longer selected.
\<close>

theorem C10_witness:
  "handleSubmit scenario_disjoint
      ((sample_component (ascii ''20''))\<lparr>selectedArtworks := [sample_artwork 99 ''old'']\<rparr>) =
     Some ((sample_component (ascii ''20''))
             \<lparr>selectedArtworks := twelve_a @ take 8 twelve_b, overlayLoading := False,
              overlayVisible := False,
              network := [Requested 1, Settled 1, Requested 2, Settled 2]\<rparr>)
   \<and> sample_artwork 99 ''old'' \<notin> set (twelve_a @ take 8 twelve_b)"
proof -
  let ?st = "(sample_component (ascii ''20''))\<lparr>selectedArtworks := [sample_artwork 99 ''old'']\<rparr>"
  have p: "parseInt10 (inputValue ?st) = Some 20"
    by (simp add: sample_component_def parseInt10_samples)
  from C10_selection_is_replaced[OF p _ run_disjoint]
  obtain st' where st': "handleSubmit scenario_disjoint ?st = Some st'"
      "selectedArtworks st' = twelve_a @ take 8 twelve_b"
    by auto
  have "handleSubmit scenario_disjoint ?st =
     Some ((sample_component (ascii ''20''))
             \<lparr>selectedArtworks := twelve_a @ take 8 twelve_b, overlayLoading := False,
              overlayVisible := False,
              network := [Requested 1, Settled 1, Requested 2, Settled 2]\<rparr>)"
    using handleSubmit_valid[OF p _ run_disjoint] by (simp add: sample_component_def)
  moreover have "sample_artwork 99 ''old'' \<notin> set (twelve_a @ take 8 twelve_b)"
    by (simp add: twelve_a_def twelve_b_def sample_artwork_def)
  ultimately show ?thesis using st' by simp
qed

end
